theory Spec2Isabelle
  imports Complex_Main "HOL-Library.Sublist" "HOL-Library.Product_Lexorder"
begin

section \<open>Strings\<close>

text \<open>
  Page titles are Python \<^verbatim>\<open>str\<close> values. They are modelled as \<^typ>\<open>string\<close>, each
  \<^typ>\<open>char\<close> standing for one code point in the range 0..255. On that range
  \<^verbatim>\<open>str.lower\<close> maps A..Z and the Latin-1 capitals (192..222 except the
  multiplication sign 215) to the code point 32 above and leaves everything else alone,
  and \<^verbatim>\<open>str.split()\<close> separates at the code points 9..13, 28..32, 133 and 160.
\<close>

definition lower_char :: "char \<Rightarrow> char" where
  "lower_char c =
     (let n = (of_char c :: nat)
      in if (65 \<le> n \<and> n \<le> 90) \<or> (192 \<le> n \<and> n \<le> 222 \<and> n \<noteq> 215)
         then char_of (n + 32) else c)"

definition lower :: "string \<Rightarrow> string" where
  "lower s = map lower_char s"

definition isspace :: "char \<Rightarrow> bool" where
  "isspace c =
     (let n = (of_char c :: nat)
      in (9 \<le> n \<and> n \<le> 13) \<or> (28 \<le> n \<and> n \<le> 32) \<or> n = 133 \<or> n = 160)"

text \<open>\<^verbatim>\<open>s.split()\<close>: the maximal runs of non-space characters, in order. The first
  argument is the run collected so far, reversed.\<close>

fun split_from :: "string \<Rightarrow> string \<Rightarrow> string list" where
  "split_from acc [] = (if acc = [] then [] else [rev acc])"
| "split_from acc (c # cs) =
     (if isspace c
      then (if acc = [] then split_from [] cs else rev acc # split_from [] cs)
      else split_from (c # acc) cs)"

definition split :: "string \<Rightarrow> string list" where
  "split s = split_from [] s"

text \<open>\<^verbatim>\<open>s.replace('_', ' ')\<close>\<close>

definition replace_underscore :: "string \<Rightarrow> string" where
  "replace_underscore s = map (\<lambda>c. if c = CHR ''_'' then CHR '' '' else c) s"

section \<open>The page filter\<close>

definition meta_blacklist :: "string list" where
  "meta_blacklist =
     [''disambiguation'', ''stub'', ''wikidata'', ''use dmy dates'', ''use mdy dates'',
      ''articles with'', ''short description'', ''identifier'', ''automatic'', ''cs1'',
      ''wikipedia'', ''category:'', ''file:'', ''template:'', ''help:'', ''user:'',
      ''talk:'', ''portal:'', ''book:'', ''draft:'', ''all articles'', ''pages with'',
      ''coordinates on wikidata'', ''webarchive template'', ''citation'']"

text \<open>\<^verbatim>\<open>term in page_name_lower\<close> is \<^term>\<open>sublist t page_name_lower\<close>;
  \<^verbatim>\<open>startswith\<close> is \<^const>\<open>prefix\<close>.\<close>

definition is_regular_page :: "string \<Rightarrow> bool" where
  "is_regular_page page_name =
     (if page_name = [] then False
      else let page_name_lower = lower page_name
           in if list_ex (\<lambda>t. sublist t page_name_lower) meta_blacklist then False
              else if prefix ''list of'' page_name_lower \<or> prefix ''index of'' page_name_lower
                   then False
              else if length page_name > 150 then False
              else True)"

section \<open>The world outside the program\<close>

text \<open>
  A \<^verbatim>\<open>WikipediaPage\<close> object, as far as the program reads it: its title and the two
  lazily fetched properties. \<open>None\<close> stands for a property whose read raises; reading
  a property of one page object twice gives the same outcome.
\<close>

record page =
  title :: string
  links :: "string list option"
  categories :: "string list option"

datatype error = DatabaseError

datatype connect_result = ConnectOk | ConnectRaises | CreateTableRaises

text \<open>
  The state the program runs in. The first four fields are the program's own state:
  the dictionary \<^verbatim>\<open>get_page_links_with_cache.memory_cache\<close> in insertion order (oldest
  entry first), the table \<^verbatim>\<open>pages\<close> as seen through the connection (the JSON text of a
  row is read back as the list of strings that was written), and whether
  \<^verbatim>\<open>thread_local.conn\<close> exists. The field \<open>lookups\<close> is a history variable: the
  arguments of all calls of \<^verbatim>\<open>get_page_links_with_cache\<close> so far. The remaining
  fields are the answers of the outside world; every question asked advances \<open>tick\<close>,
  the answer may depend on it, and nothing is assumed about the answers.
  \<open>set_order\<close> is the order in which Python iterates over a set of strings. The
  readings of the clock are real numbers, and the time elapsed is their difference. The
  code subtracts doubles: its difference is the same number whenever neither reading is
  more than twice the other, as with readings of the epoch clock, and always has the same
  sign, so the test against a budget of 0 is exact; for other readings and budgets the
  rounded difference of the code may fall on the other side of the budget.
\<close>

record world =
  memory_cache :: "(string \<times> string list) list"
  pages_db :: "string \<rightharpoonup> string list"
  has_conn :: bool
  lookups :: "string list"
  tick :: nat
  wikipedia_page :: "nat \<Rightarrow> string \<Rightarrow> page option"
  wikipedia_search :: "nat \<Rightarrow> string \<Rightarrow> string list option"
  sqlite_connect :: "nat \<Rightarrow> connect_result"
  select_raises :: "nat \<Rightarrow> bool"
  insert_raises :: "nat \<Rightarrow> bool"
  clock :: "nat \<Rightarrow> real"
  set_order :: "string list \<Rightarrow> string list"

definition advance :: "world \<Rightarrow> world" where
  "advance w = w\<lparr>tick := Suc (tick w)\<rparr>"

text \<open>\<^verbatim>\<open>time.time()\<close>\<close>

definition time_time :: "world \<Rightarrow> real \<times> world" where
  "time_time w = (clock w (tick w), advance w)"

text \<open>\<^verbatim>\<open>wikipedia.page(name, auto_suggest=False, redirect=False)\<close>; \<open>None\<close> when it raises.\<close>

definition wikipedia_page_call :: "world \<Rightarrow> string \<Rightarrow> page option \<times> world" where
  "wikipedia_page_call w name = (wikipedia_page w (tick w) name, advance w)"

text \<open>\<^verbatim>\<open>wikipedia.search(name)\<close>; \<open>None\<close> when it raises.\<close>

definition wikipedia_search_call :: "world \<Rightarrow> string \<Rightarrow> string list option \<times> world" where
  "wikipedia_search_call w name = (wikipedia_search w (tick w) name, advance w)"

definition python_fallback :: "world \<Rightarrow> page option \<times> world" where
  "python_fallback w = wikipedia_page_call w ''Python (programming language)''"

definition get_page :: "world \<Rightarrow> string \<Rightarrow> page option \<times> world" where
  "get_page w page_name =
     (case wikipedia_page_call w page_name of
        (Some p, w1) \<Rightarrow> (Some p, w1)
      | (None, w1) \<Rightarrow>
          (case wikipedia_search_call w1 page_name of
             (None, w2) \<Rightarrow> python_fallback w2
           | (Some search_results, w2) \<Rightarrow>
               (case wikipedia_page_call w2
                       (case search_results of
                          [] \<Rightarrow> ''Python (programming language)''
                        | r # _ \<Rightarrow> r) of
                  (Some p, w3) \<Rightarrow> (Some p, w3)
                | (None, w3) \<Rightarrow> python_fallback w3)))"

text \<open>
  \<^verbatim>\<open>get_db_connection\<close>: the connection is made once; when \<^verbatim>\<open>sqlite3.connect\<close> raises
  nothing is stored, when the table creation raises the connection is already stored.
\<close>

definition get_db_connection :: "world \<Rightarrow> (error + unit) \<times> world" where
  "get_db_connection w =
     (if has_conn w then (Inr (), w)
      else case sqlite_connect w (tick w) of
             ConnectRaises \<Rightarrow> (Inl DatabaseError, advance w)
           | CreateTableRaises \<Rightarrow> (Inl DatabaseError, (advance w)\<lparr>has_conn := True\<rparr>)
           | ConnectOk \<Rightarrow> (Inr (), (advance w)\<lparr>has_conn := True\<rparr>))"

text \<open>\<^verbatim>\<open>SELECT links FROM pages WHERE name = ?\<close> followed by \<^verbatim>\<open>json.loads\<close>\<close>

definition db_select :: "world \<Rightarrow> string \<Rightarrow> (error + string list option) \<times> world" where
  "db_select w page_name =
     (if select_raises w (tick w) then (Inl DatabaseError, advance w)
      else (Inr (pages_db w page_name), advance w))"

text \<open>\<^verbatim>\<open>INSERT OR REPLACE\<close> and commit inside \<^verbatim>\<open>try ... except Exception: pass\<close>\<close>

definition db_insert :: "world \<Rightarrow> string \<Rightarrow> string list \<Rightarrow> world" where
  "db_insert w page_name ls =
     (if insert_raises w (tick w) then advance w
      else (advance w)\<lparr>pages_db := (pages_db w)(page_name \<mapsto> ls)\<rparr>)"

section \<open>The link cache\<close>

text \<open>\<^verbatim>\<open>d[k] = v\<close> on a dictionary kept in insertion order: an existing key keeps its
  place, a new key goes to the end.\<close>

fun dict_set :: "('k \<times> 'v) list \<Rightarrow> 'k \<Rightarrow> 'v \<Rightarrow> ('k \<times> 'v) list" where
  "dict_set [] k v = [(k, v)]"
| "dict_set ((k', v') # kvs) k v =
     (if k' = k then (k, v) # kvs else (k', v') # dict_set kvs k v)"

text \<open>
  \<^verbatim>\<open>try: links = page.links + page.categories\<close>
  \<^verbatim>\<open>except Exception: try: links = page.links except Exception: links = []\<close>
\<close>

definition raw_links :: "page \<Rightarrow> string list" where
  "raw_links p =
     (case links p of
        None \<Rightarrow> []
      | Some ls \<Rightarrow> (case categories p of None \<Rightarrow> ls | Some cs \<Rightarrow> ls @ cs))"

text \<open>The tail of \<^verbatim>\<open>get_page_links_with_cache\<close>: filter the raw list, make room in the
  memory cache when it holds more than 1000 entries, store and return the filtered list.\<close>

definition filter_and_store :: "world \<Rightarrow> string \<Rightarrow> string list \<Rightarrow> string list \<times> world" where
  "filter_and_store w page_name ls =
     (let filtered = filter (\<lambda>link. link \<noteq> [] \<and> is_regular_page link \<and> link \<noteq> page_name) ls;
          mc = (if length (memory_cache w) > 1000 then drop 500 (memory_cache w)
                else memory_cache w)
      in (filtered, w\<lparr>memory_cache := dict_set mc page_name filtered\<rparr>))"

definition store_empty :: "world \<Rightarrow> string \<Rightarrow> world" where
  "store_empty w page_name = w\<lparr>memory_cache := dict_set (memory_cache w) page_name []\<rparr>"

definition get_page_links_with_cache :: "world \<Rightarrow> string \<Rightarrow> (error + string list) \<times> world" where
  "get_page_links_with_cache w0 page_name =
     (let w = w0\<lparr>lookups := lookups w0 @ [page_name]\<rparr>
      in if page_name = [] then (Inr [], w)
         else case map_of (memory_cache w) page_name of
                Some ls \<Rightarrow> (Inr ls, w)
              | None \<Rightarrow>
                  (case get_db_connection w of
                     (Inl e, w1) \<Rightarrow> (Inl e, w1)
                   | (Inr _, w1) \<Rightarrow>
                       (case db_select w1 page_name of
                          (Inl e, w2) \<Rightarrow> (Inr [], store_empty w2 page_name)
                        | (Inr (Some ls), w2) \<Rightarrow>
                            (case filter_and_store w2 page_name ls of
                               (filtered, w3) \<Rightarrow> (Inr filtered, w3))
                        | (Inr None, w2) \<Rightarrow>
                            (case get_page w2 page_name of
                               (None, w3) \<Rightarrow> (Inr [], store_empty w3 page_name)
                             | (Some p, w3) \<Rightarrow>
                                 (case filter_and_store (db_insert w3 page_name (raw_links p))
                                         page_name (raw_links p) of
                                    (filtered, w4) \<Rightarrow> (Inr filtered, w4))))))"

section \<open>Path validation\<close>

text \<open>The loop \<^verbatim>\<open>for i in range(len(path) - 1)\<close> of \<^verbatim>\<open>verify_path_exists\<close>, over the
  indices still to visit. An exception of the lookup is caught and answers False.\<close>

fun verify_pairs :: "world \<Rightarrow> string list \<Rightarrow> nat list \<Rightarrow> bool \<times> world" where
  "verify_pairs w path [] = (True, w)"
| "verify_pairs w path (i # is) =
     (case get_page_links_with_cache w (path ! i) of
        (Inl e, w') \<Rightarrow> (False, w')
      | (Inr ls, w') \<Rightarrow>
          if path ! (i + 1) \<notin> set ls then (False, w') else verify_pairs w' path is)"

definition verify_path_exists :: "world \<Rightarrow> string list \<Rightarrow> bool \<times> world" where
  "verify_path_exists w path =
     (if length path < 2 then (True, w)
      else verify_pairs w path [0..<length path - 1])"

section \<open>Direct connections\<close>

text \<open>The loop \<^verbatim>\<open>for neighbor in common_neighbors[:3]\<close>\<close>

fun try_neighbors :: "world \<Rightarrow> string \<Rightarrow> string \<Rightarrow> string list \<Rightarrow> string list option \<times> world" where
  "try_neighbors w start_title end_title [] = (None, w)"
| "try_neighbors w start_title end_title (neighbor # rest) =
     (case verify_path_exists w [start_title, neighbor, end_title] of
        (True, w') \<Rightarrow> (Some [start_title, neighbor, end_title], w')
      | (False, w') \<Rightarrow> try_neighbors w' start_title end_title rest)"

definition find_direct_connection :: "world \<Rightarrow> string \<Rightarrow> string \<Rightarrow> string list option \<times> world" where
  "find_direct_connection w start_title end_title =
     (if start_title = end_title then (Some [start_title], w)
      else case get_page_links_with_cache w start_title of
             (Inl e, w1) \<Rightarrow> (None, w1)
           | (Inr start_links, w1) \<Rightarrow>
               if end_title \<in> set start_links then (Some [start_title, end_title], w1)
               else (case get_page_links_with_cache w1 end_title of
                       (Inl e, w2) \<Rightarrow> (None, w2)
                     | (Inr end_links, w2) \<Rightarrow>
                         try_neighbors w2 start_title end_title
                           (take 3 (filter (\<lambda>link. link \<in> set end_links) start_links))))"

section \<open>The bounded heuristic search\<close>

text \<open>\<^verbatim>\<open>set(title.lower().replace('_', ' ').split())\<close>\<close>

definition title_words :: "string \<Rightarrow> string set" where
  "title_words s = set (split (replace_underscore (lower s)))"

text \<open>The score of a neighbour: the number of its words that are words of the target,
  and one more when \<^verbatim>\<open>len(neighbor.split()) <= 4\<close>.\<close>

definition score :: "string set \<Rightarrow> string \<Rightarrow> nat" where
  "score end_words neighbor =
     card (title_words neighbor \<inter> end_words) + (if length (split neighbor) \<le> 4 then 1 else 0)"

text \<open>The key of \<^verbatim>\<open>scored_neighbors.sort(key=lambda x: (-x[1], len(x[0])))\<close>; pairs are
  compared lexicographically, and \<^const>\<open>sort_key\<close> is stable as Python's sort is.\<close>

definition sort_rank :: "string \<times> nat \<Rightarrow> int \<times> nat" where
  "sort_rank x = (- int (snd x), length (fst x))"

record bfs_state =
  queue :: "(string \<times> string list) list"
  visited :: "string set"
  nodes_processed :: nat

definition max_nodes :: nat where
  "max_nodes = 5000"

text \<open>
  The loop \<^verbatim>\<open>for neighbor in neighbors\<close>: it returns the first validated path to the
  target, or else the list \<^verbatim>\<open>scored_neighbors\<close>. The set \<open>visited\<close> does not change
  while this loop runs.
\<close>

fun score_neighbors ::
  "world \<Rightarrow> string \<Rightarrow> string list \<Rightarrow> string set \<Rightarrow> (string \<times> nat) list \<Rightarrow> string list
     \<Rightarrow> string list option \<times> (string \<times> nat) list \<times> world" where
  "score_neighbors w end_title path vis scored [] = (None, scored, w)"
| "score_neighbors w end_title path vis scored (neighbor # rest) =
     (case (if neighbor = end_title then verify_path_exists w (path @ [neighbor])
            else (False, w)) of
        (True, w') \<Rightarrow> (Some (path @ [neighbor]), scored, w')
      | (False, w') \<Rightarrow>
          score_neighbors w' end_title path vis
            (if neighbor \<notin> vis \<and> length neighbor < 100
             then scored @ [(neighbor, score (title_words end_title) neighbor)]
             else scored)
            rest)"

text \<open>The loop \<^verbatim>\<open>for neighbor in top_neighbors\<close>\<close>

fun enqueue :: "bfs_state \<Rightarrow> string list \<Rightarrow> string list \<Rightarrow> bfs_state" where
  "enqueue st path [] = st"
| "enqueue st path (neighbor # rest) =
     enqueue
       (if neighbor \<notin> visited st
        then st\<lparr>queue := queue st @ [(neighbor, path @ [neighbor])],
                visited := insert neighbor (visited st)\<rparr>
        else st)
       path rest"

definition top_neighbors :: "(string \<times> nat) list \<Rightarrow> string list" where
  "top_neighbors scored_neighbors = map fst (take 10 (sort_key sort_rank scored_neighbors))"

text \<open>
  One iteration of the \<^verbatim>\<open>while\<close> loop after the node has been dequeued and counted.
  The result \<open>Some p\<close> is \<^verbatim>\<open>return p\<close>; \<open>None\<close> goes on with the next iteration, also
  after \<^verbatim>\<open>continue\<close> at the depth bound and after an exception of the lookup.
\<close>

definition process_node ::
  "world \<Rightarrow> string \<Rightarrow> int \<Rightarrow> bfs_state \<Rightarrow> string \<Rightarrow> string list
     \<Rightarrow> string list option \<times> bfs_state \<times> world" where
  "process_node w end_title max_depth st current_title path =
     (if int (length path) \<ge> max_depth then (None, st, w)
      else case get_page_links_with_cache w current_title of
             (Inl e, w1) \<Rightarrow> (None, st, w1)
           | (Inr neighbors, w1) \<Rightarrow>
               (case score_neighbors w1 end_title path (visited st) [] neighbors of
                  (Some final_path, scored_neighbors, w2) \<Rightarrow> (Some final_path, st, w2)
                | (None, scored_neighbors, w2) \<Rightarrow>
                    (None, enqueue st path (top_neighbors scored_neighbors), w2)))"

text \<open>The loop \<^verbatim>\<open>while queue and nodes_processed < max_nodes\<close>; the result also carries
  the loop variables as they are when the loop is left.\<close>

function bfs_loop ::
  "world \<Rightarrow> string \<Rightarrow> int \<Rightarrow> real \<Rightarrow> real \<Rightarrow> bfs_state
     \<Rightarrow> string list option \<times> bfs_state \<times> world" where
  "bfs_loop w end_title max_depth timeout start_time st =
     (case queue st of
        [] \<Rightarrow> (None, st, w)
      | (current_title, path) # rest \<Rightarrow>
          if nodes_processed st < max_nodes
          then (case time_time w of
                  (now, w1) \<Rightarrow>
                    if now - start_time > timeout then (None, st, w1)
                    else (case process_node w1 end_title max_depth
                                 (st\<lparr>queue := rest, nodes_processed := nodes_processed st + 1\<rparr>)
                                 current_title path of
                            (Some final_path, st', w2) \<Rightarrow> (Some final_path, st', w2)
                          | (None, st', w2) \<Rightarrow>
                              bfs_loop w2 end_title max_depth timeout start_time st'))
          else (None, st, w))"
  by pat_completeness auto
termination
proof (relation "measure (\<lambda>(w, end_title, max_depth, timeout, start_time, st).
                            max_nodes - nodes_processed st)")
  show "wf (measure (\<lambda>(w, end_title, max_depth, timeout, start_time, st).
                       max_nodes - nodes_processed st))"
    by simp
next
  fix w :: world and end_title :: string and max_depth :: int and timeout start_time :: real
    and st :: bfs_state and a list x1 x2 x y xa ya x2a x1a x2b
  assume bound: "nodes_processed st < max_nodes"
    and "(x1a, x2b) = ya"
    and "(x2a, ya) = process_node y end_title max_depth
            (st\<lparr>queue := list, nodes_processed := nodes_processed st + 1\<rparr>) x1 x2"
  then have step: "process_node y end_title max_depth
            (st\<lparr>queue := list, nodes_processed := nodes_processed st + 1\<rparr>) x1 x2
          = (x2a, x1a, x2b)"
    by simp
  have enq: "nodes_processed (enqueue s p ns) = nodes_processed s" for s p ns
    by (induction ns arbitrary: s) auto
  have "nodes_processed x1a = nodes_processed st + 1"
    using step
    by (auto simp: process_node_def enq split: if_splits prod.splits sum.splits option.splits)
  then show "((x2b, end_title, max_depth, timeout, start_time, x1a),
              (w, end_title, max_depth, timeout, start_time, st))
             \<in> measure (\<lambda>(w, end_title, max_depth, timeout, start_time, st).
                          max_nodes - nodes_processed st)"
    using bound by simp
qed

declare bfs_loop.simps [simp del]

definition find_path_bfs ::
  "world \<Rightarrow> string \<Rightarrow> string \<Rightarrow> int \<Rightarrow> real \<Rightarrow> string list option \<times> world" where
  "find_path_bfs w start_title end_title max_depth timeout =
     (case time_time w of
        (start_time, w1) \<Rightarrow>
          (case find_direct_connection w1 start_title end_title of
             (direct_path, w2) \<Rightarrow>
               if direct_path \<noteq> None \<and> direct_path \<noteq> Some [] then (direct_path, w2)
               else (case bfs_loop w2 end_title max_depth timeout start_time
                            \<lparr>queue = [(start_title, [start_title])],
                             visited = {start_title},
                             nodes_processed = 0\<rparr> of
                       (result, st, w3) \<Rightarrow> (result, w3))))"

section \<open>The orchestrator\<close>

text \<open>The loop \<^verbatim>\<open>for cat in list(common_cats)[:3]\<close>; falling out of it reaches
  \<^verbatim>\<open>return []\<close>.\<close>

fun try_categories :: "world \<Rightarrow> string \<Rightarrow> string \<Rightarrow> string list \<Rightarrow> string list \<times> world" where
  "try_categories w start_title end_title [] = ([], w)"
| "try_categories w start_title end_title (cat # rest) =
     (case verify_path_exists w [start_title, cat, end_title] of
        (True, w') \<Rightarrow> ([start_title, cat, end_title], w')
      | (False, w') \<Rightarrow> try_categories w' start_title end_title rest)"

text \<open>
  The category-based approach of \<^verbatim>\<open>find_short_path\<close>. A category list that cannot be
  read raises inside the inner \<^verbatim>\<open>try\<close> and leads to \<^verbatim>\<open>return []\<close>.
\<close>

definition category_fallback :: "world \<Rightarrow> string \<Rightarrow> string \<Rightarrow> string list \<times> world" where
  "category_fallback w start_title end_title =
     (case get_page w start_title of
        (start_page_obj, w1) \<Rightarrow>
          (case get_page w1 end_title of
             (end_page_obj, w2) \<Rightarrow>
               (case (start_page_obj, end_page_obj) of
                  (Some sp, Some ep) \<Rightarrow>
                    (case (categories sp, categories ep) of
                       (Some scats, Some ecats) \<Rightarrow>
                         (let start_cats = take 10 (filter is_regular_page scats);
                              end_cats = take 10 (filter is_regular_page ecats);
                              common_cats = set_order w2
                                (remdups (filter (\<lambda>cat. cat \<in> set end_cats) start_cats))
                          in try_categories w2 start_title end_title (take 3 common_cats))
                     | _ \<Rightarrow> ([], w2))
                | _ \<Rightarrow> ([], w2))))"

definition find_short_path ::
  "world \<Rightarrow> page option \<Rightarrow> page option \<Rightarrow> real \<Rightarrow> string list \<times> world" where
  "find_short_path w start_page end_page timeout =
     (case (start_page, end_page) of
        (Some sp, Some ep) \<Rightarrow>
          if title sp = [] \<or> title ep = [] then ([], w)
          else (case find_path_bfs w (title sp) (title ep) 6 timeout of
                  (None, w1) \<Rightarrow> category_fallback w1 (title sp) (title ep)
                | (Some path, w1) \<Rightarrow>
                    if path = [] then category_fallback w1 (title sp) (title ep)
                    else (case verify_path_exists w1 path of
                            (True, w2) \<Rightarrow> (path, w2)
                          | (False, w2) \<Rightarrow> category_fallback w2 (title sp) (title ep)))
      | _ \<Rightarrow> ([], w))"

section \<open>Notions used in the statements\<close>

text \<open>The answers of \<open>get_page_links_with_cache\<close> for the topics of a list, asked one
  after the other, each lookup starting in the state the previous one left.\<close>

fun lookup_all :: "world \<Rightarrow> string list \<Rightarrow> (error + string list) list" where
  "lookup_all w [] = []"
| "lookup_all w (a # as) =
     (case get_page_links_with_cache w a of (r, w') \<Rightarrow> r # lookup_all w' as)"

text \<open>Every list in the memory cache is a filtered list: it holds neither its own key
  nor an empty or filtered-out name.\<close>

definition hot_tier_filtered :: "world \<Rightarrow> bool" where
  "hot_tier_filtered w =
     (\<forall>(k, v) \<in> set (memory_cache w). k \<notin> set v \<and> (\<forall>x \<in> set v. x \<noteq> [] \<and> is_regular_page x))"

text \<open>A queue entry is well formed when its path starts at the start topic and has at
  most \<open>max_depth\<close> elements.\<close>

definition paths_ok :: "string \<Rightarrow> int \<Rightarrow> bfs_state \<Rightarrow> bool" where
  "paths_ok start_title max_depth st =
     (\<forall>(t, path) \<in> set (queue st).
        path \<noteq> [] \<and> hd path = start_title \<and> int (length path) \<le> max_depth)"

section \<open>Concrete states\<close>

text \<open>A fresh state in which the page ``A'' is known to the source only.\<close>

definition page_A :: page where
  "page_A = \<lparr>title = ''A'', links = Some [''B'', ''A'', ''List of x''], categories = Some [''Physics'']\<rparr>"

definition w_init :: world where
  "w_init =
     \<lparr>memory_cache = [], pages_db = Map.empty, has_conn = True, lookups = [], tick = 0,
      wikipedia_page = (\<lambda>n name. if name = ''A'' then Some page_A else None),
      wikipedia_search = (\<lambda>n name. Some []),
      sqlite_connect = (\<lambda>n. ConnectOk),
      select_raises = (\<lambda>n. False),
      insert_raises = (\<lambda>n. False),
      clock = (\<lambda>n. 0),
      set_order = (\<lambda>xs. xs)\<rparr>"

text \<open>A state with three pages in the memory cache and a clock that stands still.\<close>

definition w_cached :: world where
  "w_cached =
     \<lparr>memory_cache = [(''A'', [''B'']), (''B'', [''C'']), (''C'', [])],
      pages_db = Map.empty, has_conn = True, lookups = [], tick = 0,
      wikipedia_page = (\<lambda>n name. None),
      wikipedia_search = (\<lambda>n name. None),
      sqlite_connect = (\<lambda>n. ConnectOk),
      select_raises = (\<lambda>n. False),
      insert_raises = (\<lambda>n. False),
      clock = (\<lambda>n. 0),
      set_order = (\<lambda>xs. xs)\<rparr>"

text \<open>A state without a database connection, in which connecting fails.\<close>

definition w_offline :: world where
  "w_offline =
     \<lparr>memory_cache = [], pages_db = Map.empty, has_conn = False, lookups = [], tick = 0,
      wikipedia_page = (\<lambda>n name. None),
      wikipedia_search = (\<lambda>n name. None),
      sqlite_connect = (\<lambda>n. ConnectRaises),
      select_raises = (\<lambda>n. True),
      insert_raises = (\<lambda>n. True),
      clock = (\<lambda>n. 0),
      set_order = (\<lambda>xs. xs)\<rparr>"

text \<open>A page object of which only the title matters.\<close>

definition page_titled :: "string \<Rightarrow> page" where
  "page_titled t = \<lparr>title = t, links = None, categories = None\<rparr>"

text \<open>A state in which the page ``Hub'' has thirteen references, with the scores they get
  for the target ``Red Star''.\<close>

definition hub_links :: "string list" where
  "hub_links = [''Aa'', ''RED'', ''B'', ''Star_Red'', ''Cc'', ''Dd'', ''Ee'', ''Ff'', ''Gg'',
                ''Hh'', ''Ii'', ''v_w_x_y_z'', ''One two three four five'']"

definition w_hub :: world where
  "w_hub = w_cached\<lparr>memory_cache := [(''Hub'', hub_links)]\<rparr>"

definition hub_scored :: "(string \<times> nat) list" where
  "hub_scored = [(''Aa'', 1), (''RED'', 2), (''B'', 1), (''Star_Red'', 3), (''Cc'', 1),
                 (''Dd'', 1), (''Ee'', 1), (''Ff'', 1), (''Gg'', 1), (''Hh'', 1), (''Ii'', 1),
                 (''v_w_x_y_z'', 1), (''One two three four five'', 0)]"

text \<open>A state in which the page ``Hub'' has sixteen references, five of them listed
  twice.\<close>

definition dup_links :: "string list" where
  "dup_links = [''Aa'', ''Aa'', ''Bb'', ''Bb'', ''Cc'', ''Cc'', ''Dd'', ''Dd'', ''Ee'', ''Ee'',
                ''Ff'', ''Gg'', ''Hh'', ''Ii'', ''Jj'', ''Kk'']"

definition w_dup :: world where
  "w_dup = w_cached\<lparr>memory_cache := [(''Hub'', dup_links)]\<rparr>"

text \<open>A state whose clock advances with every question asked, in which the pages ``A''
  and ``C'' share the category ``Physics''.\<close>

definition w_ticking :: world where
  "w_ticking =
     \<lparr>memory_cache = [(''A'', [''Physics'']), (''Physics'', [''C'']), (''C'', [])],
      pages_db = Map.empty, has_conn = True, lookups = [], tick = 0,
      wikipedia_page =
        (\<lambda>n name. if name = ''A'' \<or> name = ''C''
                   then Some \<lparr>title = name, links = Some [], categories = Some [''Physics'']\<rparr>
                   else None),
      wikipedia_search = (\<lambda>n name. None),
      sqlite_connect = (\<lambda>n. ConnectOk),
      select_raises = (\<lambda>n. False),
      insert_raises = (\<lambda>n. False),
      clock = (\<lambda>n. real n),
      set_order = (\<lambda>xs. xs)\<rparr>"

section \<open>Facts about strings and the filter\<close>

lemma lower_append: "lower (a @ b) = lower a @ lower b"
  by (simp add: lower_def)

lemma sublist_lower: "sublist m n \<Longrightarrow> sublist (lower m) (lower n)"
  unfolding sublist_def by (metis lower_append)

lemma prefix_lower: "prefix m n \<Longrightarrow> prefix (lower m) (lower n)"
  by (auto simp: prefix_def lower_append)

lemma is_regular_page_iff:
  "is_regular_page n \<longleftrightarrow>
     n \<noteq> [] \<and> (\<forall>t \<in> set meta_blacklist. \<not> sublist t (lower n))
     \<and> \<not> prefix ''list of'' (lower n) \<and> \<not> prefix ''index of'' (lower n) \<and> length n \<le> 150"
  by (auto simp: is_regular_page_def Let_def list_ex_iff)

lemma lower_Category: "lower ''Category:'' = ''category:''"
  by code_simp

lemma in_bl1: "''category:'' \<in> set meta_blacklist"
  by (simp add: meta_blacklist_def)
lemma in_bl2: "''disambiguation'' \<in> set meta_blacklist"
  by (simp add: meta_blacklist_def)

text \<open>Lower-casing and the splitting of titles into words.\<close>

lemma isspace_lower_char: "isspace (lower_char c) = isspace c"
  by (auto simp: isspace_def lower_char_def Let_def)

lemma lower_char_space: "isspace c \<Longrightarrow> lower_char c = c"
  by (auto simp: isspace_def lower_char_def Let_def)

lemma lower_char_underscore: "lower_char c = CHR ''_'' \<longleftrightarrow> c = CHR ''_''"
proof
  assume l: "lower_char c = CHR ''_''"
  show "c = CHR ''_''"
  proof (rule ccontr)
    assume n: "c \<noteq> CHR ''_''"
    with l have up: "lower_char c = char_of (of_char c + 32 :: nat)"
      and r: "(65 \<le> (of_char c :: nat) \<and> (of_char c :: nat) \<le> 90)
              \<or> (192 \<le> (of_char c :: nat) \<and> (of_char c :: nat) \<le> 222)"
      by (auto simp: lower_char_def Let_def split: if_splits)
    from l up have "(of_char (char_of (of_char c + 32 :: nat)) :: nat) = of_char CHR ''_''"
      by simp
    with r show False by auto
  qed
next
  assume "c = CHR ''_''"
  then show "lower_char c = CHR ''_''"
    by (simp add: lower_char_def)
qed

lemma split_from_end: "split_from acc [] = (if acc = [] then [] else [rev acc])"
  by simp

lemma split_from_append_space:
  "isspace c \<Longrightarrow> split_from acc (a @ c # b) = split_from acc a @ split_from [] b"
  by (induction a arbitrary: acc) auto

lemma split_from_word:
  "\<forall>c \<in> set u. \<not> isspace c
     \<Longrightarrow> split_from acc u = (if rev acc @ u = [] then [] else [rev acc @ u])"
  by (induction u arbitrary: acc) auto

lemma split_append_space: "isspace c \<Longrightarrow> split (a @ c # b) = split a @ split b"
  by (simp add: split_def split_from_append_space)

lemma split_word: "u \<noteq> [] \<Longrightarrow> \<forall>c \<in> set u. \<not> isspace c \<Longrightarrow> split u = [u]"
  by (simp add: split_def split_from_word)

lemma isspace_blank: "isspace CHR '' ''"
  by (simp add: isspace_def)

lemma title_words_separator:
  assumes "isspace c \<or> c = CHR ''_''"
  shows "title_words (a @ c # b) = title_words a \<union> title_words b"
proof -
  let ?c = "if lower_char c = CHR ''_'' then CHR '' '' else lower_char c"
  have "isspace ?c"
    using assms by (auto simp: isspace_blank isspace_lower_char lower_char_underscore)
  moreover have "replace_underscore (lower (a @ c # b))
                   = replace_underscore (lower a) @ ?c # replace_underscore (lower b)"
    by (simp add: replace_underscore_def lower_def)
  ultimately show ?thesis
    by (simp add: title_words_def split_append_space)
qed

lemma title_words_word:
  assumes "u \<noteq> []" and "\<forall>c \<in> set u. \<not> isspace c \<and> c \<noteq> CHR ''_''"
  shows "title_words u = {lower u}"
proof -
  have "replace_underscore (lower u) = lower u"
    using assms(2) by (induction u) (auto simp: replace_underscore_def lower_def lower_char_underscore)
  moreover have "\<forall>c \<in> set (lower u). \<not> isspace c"
    using assms(2) by (auto simp: lower_def isspace_lower_char)
  moreover have "lower u \<noteq> []"
    using assms(1) by (simp add: lower_def)
  ultimately show ?thesis
    by (simp add: title_words_def split_word)
qed

lemma title_words_empty: "title_words [] = {}"
  by (simp add: title_words_def split_def lower_def replace_underscore_def)


section \<open>Claims about the page filter\<close>

text \<open>
  Claim C3. \<open>is_regular_page\<close> answers False for the empty name, for every name longer
  than 150 characters, for every name that begins with ``list of'' or ``index of'' in any
  letter case, and for every name that contains one of the administrative markers in any
  letter case, in particular for a name that starts with ``Category:'' or contains
  ``disambiguation''; it answers True for ``Albert Einstein''. The function takes the
  name alone and yields a truth value alone: it neither reads nor changes the state.
\<close>

theorem is_regular_page_rejects:
  "\<not> is_regular_page []
   \<and> (length n > 150 \<longrightarrow> \<not> is_regular_page n)
   \<and> (prefix m n \<and> lower m \<in> {''list of'', ''index of''} \<longrightarrow> \<not> is_regular_page n)
   \<and> (sublist m n \<and> lower m \<in> set meta_blacklist \<longrightarrow> \<not> is_regular_page n)
   \<and> (prefix ''Category:'' n \<longrightarrow> \<not> is_regular_page n)
   \<and> (sublist m n \<and> lower m = ''disambiguation'' \<longrightarrow> \<not> is_regular_page n)
   \<and> is_regular_page ''Albert Einstein''"
proof (intro conjI impI)
  show "\<not> is_regular_page []" by (simp add: is_regular_page_def)
  show "\<not> is_regular_page n" if "length n > 150"
    using that by (simp add: is_regular_page_iff)
  show "\<not> is_regular_page n" if "prefix m n \<and> lower m \<in> {''list of'', ''index of''}"
    using that prefix_lower [of m n] by (auto simp: is_regular_page_iff)
  show "\<not> is_regular_page n" if "sublist m n \<and> lower m \<in> set meta_blacklist"
    using that sublist_lower [of m n] by (auto simp: is_regular_page_iff)
  show "\<not> is_regular_page n" if "prefix ''Category:'' n"
  proof -
    from that have "sublist (lower ''Category:'') (lower n)"
      by (intro sublist_lower) (auto simp: prefix_def)
    then show ?thesis using in_bl1 by (auto simp: is_regular_page_iff lower_Category)
  qed
  show "\<not> is_regular_page n" if "sublist m n \<and> lower m = ''disambiguation''"
    using that sublist_lower [of m n] in_bl2 by (auto simp: is_regular_page_iff)
  show "is_regular_page ''Albert Einstein''"
    by code_simp
qed

theorem is_regular_page_rejects_witness:
  "\<not> is_regular_page ''List of rivers'' \<and> \<not> is_regular_page ''Talk:Physics''
   \<and> \<not> is_regular_page ''Category:Physics'' \<and> \<not> is_regular_page ''Mercury (Disambiguation)''
   \<and> \<not> is_regular_page (replicate 151 CHR ''a'')"
proof -
  have p1: "prefix ''List of'' ''List of rivers'' \<and> lower ''List of'' \<in> {''list of'', ''index of''}"
    by code_simp
  have p2: "sublist ''Talk:'' ''Talk:Physics'' \<and> lower ''Talk:'' \<in> set meta_blacklist"
    by code_simp
  have p3: "prefix ''Category:'' ''Category:Physics''" by simp
  have p4: "sublist ''Disambiguation'' ''Mercury (Disambiguation)'' \<and> lower ''Disambiguation'' = ''disambiguation''"
    by code_simp
  have p5: "length (replicate 151 CHR ''a'') > 150" by simp
  have "\<not> is_regular_page ''List of rivers''"
    using is_regular_page_rejects [of "''List of rivers''" "''List of''"] p1 by auto
  moreover have "\<not> is_regular_page ''Talk:Physics''"
    using is_regular_page_rejects [of "''Talk:Physics''" "''Talk:''"] p2 by auto
  moreover have "\<not> is_regular_page ''Category:Physics''"
    using is_regular_page_rejects [of "''Category:Physics''" "[]"] p3 by auto
  moreover have "\<not> is_regular_page ''Mercury (Disambiguation)''"
    using is_regular_page_rejects [of "''Mercury (Disambiguation)''" "''Disambiguation''"] p4
    by auto
  moreover have "\<not> is_regular_page (replicate 151 CHR ''a'')"
    using is_regular_page_rejects [of "replicate 151 CHR ''a''" "[]"] p5 by auto
  ultimately show ?thesis by simp
qed

section \<open>Facts about the link cache\<close>

lemma map_of_dict_set: "map_of (dict_set m k v) k = Some v"
  by (induction m k v rule: dict_set.induct) auto

lemma set_dict_set: "set (dict_set m k v) \<subseteq> insert (k, v) (set m)"
  by (induction m k v rule: dict_set.induct) auto

lemma cached_after_lookup:
  assumes "get_page_links_with_cache w t = (Inr r, w')" and "t \<noteq> []"
  shows "map_of (memory_cache w') t = Some r"
  using assms
  by (auto simp: get_page_links_with_cache_def Let_def store_empty_def filter_and_store_def
        map_of_dict_set
      split: option.splits prod.splits sum.splits if_splits)

lemma empty_name_lookup:
  "get_page_links_with_cache w [] = (Inr [], w\<lparr>lookups := lookups w @ [[]]\<rparr>)"
  by (simp add: get_page_links_with_cache_def)

lemma regular_B: "is_regular_page ''B''" by code_simp
lemma regular_Physics: "is_regular_page ''Physics''" by code_simp
lemma not_regular_List: "\<not> is_regular_page ''List of x''" by code_simp

lemma first_lookup_A:
  "fst (get_page_links_with_cache w_init ''A'') = Inr [''B'', ''Physics'']"
  by (simp add: get_page_links_with_cache_def w_init_def get_db_connection_def db_select_def
      advance_def get_page_def wikipedia_page_call_def page_A_def raw_links_def db_insert_def
      filter_and_store_def Let_def regular_B regular_Physics not_regular_List)

lemma db_after_lookup_A:
  "pages_db (snd (get_page_links_with_cache w_init ''A'')) ''A'' = Some [''B'', ''A'', ''List of x'', ''Physics'']"
  by (simp add: get_page_links_with_cache_def w_init_def get_db_connection_def db_select_def
      advance_def get_page_def wikipedia_page_call_def page_A_def raw_links_def db_insert_def
      filter_and_store_def Let_def regular_B regular_Physics not_regular_List)

lemma get_page_frame:
  assumes "get_page w n = (r, w')"
  shows "memory_cache w' = memory_cache w \<and> pages_db w' = pages_db w
         \<and> lookups w' = lookups w \<and> has_conn w' = has_conn w"
  using assms
  by (auto simp: get_page_def wikipedia_page_call_def wikipedia_search_call_def
        python_fallback_def advance_def
      split: option.splits prod.splits list.splits)

lemma get_db_connection_frame:
  assumes "get_db_connection w = (r, w')"
  shows "memory_cache w' = memory_cache w \<and> pages_db w' = pages_db w \<and> lookups w' = lookups w"
  using assms
  by (auto simp: get_db_connection_def advance_def split: if_splits connect_result.splits)

lemma db_select_frame:
  assumes "db_select w n = (r, w')"
  shows "w' = advance w \<and> (r = Inl DatabaseError \<or> r = Inr (pages_db w n))"
  using assms by (auto simp: db_select_def split: if_splits)

lemma hot_tier_filtered_dict_set:
  assumes "\<forall>(k, v) \<in> set m. k \<notin> set v \<and> (\<forall>x \<in> set v. x \<noteq> [] \<and> is_regular_page x)"
    and "t \<notin> set r" and "\<forall>x \<in> set r. x \<noteq> [] \<and> is_regular_page x"
  shows "\<forall>(k, v) \<in> set (dict_set m t r). k \<notin> set v \<and> (\<forall>x \<in> set v. x \<noteq> [] \<and> is_regular_page x)"
  using assms set_dict_set [of m t r] by blast

lemma filter_and_store_filtered:
  assumes "filter_and_store w t ls = (r, w')"
  shows "r = filter (\<lambda>link. link \<noteq> [] \<and> is_regular_page link \<and> link \<noteq> t) ls
         \<and> pages_db w' = pages_db w
         \<and> (hot_tier_filtered w \<longrightarrow> hot_tier_filtered w')"
proof -
  let ?r = "filter (\<lambda>link. link \<noteq> [] \<and> is_regular_page link \<and> link \<noteq> t) ls"
  let ?mc = "if length (memory_cache w) > 1000 then drop 500 (memory_cache w) else memory_cache w"
  from assms have r: "r = ?r" and w': "w' = w\<lparr>memory_cache := dict_set ?mc t ?r\<rparr>"
    by (auto simp: filter_and_store_def Let_def)
  have "hot_tier_filtered w'" if h: "hot_tier_filtered w"
  proof -
    have "set ?mc \<subseteq> set (memory_cache w)"
      by (auto dest: in_set_dropD)
    with h have "\<forall>(k, v) \<in> set ?mc. k \<notin> set v \<and> (\<forall>x \<in> set v. x \<noteq> [] \<and> is_regular_page x)"
      unfolding hot_tier_filtered_def by blast
    then have "\<forall>(k, v) \<in> set (dict_set ?mc t ?r). k \<notin> set v \<and> (\<forall>x \<in> set v. x \<noteq> [] \<and> is_regular_page x)"
      by (rule hot_tier_filtered_dict_set) auto
    then show ?thesis
      unfolding hot_tier_filtered_def w' by simp
  qed
  with r w' show ?thesis by simp
qed

lemma store_empty_filtered:
  "hot_tier_filtered w \<Longrightarrow> hot_tier_filtered (store_empty w t)"
  unfolding hot_tier_filtered_def store_empty_def
  using hot_tier_filtered_dict_set [of "memory_cache w" t "[]"] by simp

section \<open>Claims about the link cache\<close>

text \<open>
  Claim C4. When a call of \<open>get_page_links_with_cache\<close> for a topic returns a list, the
  next call for the same topic, with nothing in between, returns the same list, whichever
  of the memory cache, the database and the source served the first call. The second call
  asks nothing of the outside world: the state changes in the lookup history only.
\<close>

theorem get_page_links_with_cache_idempotent:
  assumes "get_page_links_with_cache w t = (Inr r, w')"
  shows "get_page_links_with_cache w' t = (Inr r, w'\<lparr>lookups := lookups w' @ [t]\<rparr>)"
proof (cases "t = []")
  case True
  with assms have "r = []" by (simp add: empty_name_lookup)
  with True show ?thesis by (simp add: empty_name_lookup)
next
  case False
  with assms have "map_of (memory_cache w') t = Some r"
    by (rule cached_after_lookup)
  with False show ?thesis
    by (simp add: get_page_links_with_cache_def)
qed

theorem get_page_links_with_cache_idempotent_witness:
  "fst (get_page_links_with_cache w_init ''A'') = Inr [''B'', ''Physics'']
   \<and> fst (get_page_links_with_cache (snd (get_page_links_with_cache w_init ''A'')) ''A'')
       = Inr [''B'', ''Physics'']"
proof -
  have h: "get_page_links_with_cache w_init ''A''
             = (Inr [''B'', ''Physics''], snd (get_page_links_with_cache w_init ''A''))"
    using first_lookup_A by (simp add: prod_eq_iff)
  show ?thesis
    using get_page_links_with_cache_idempotent [OF h] first_lookup_A by simp
qed


text \<open>
  Claim C5, as stated: every record written to the database holds the filtered list, so
  it never holds the topic itself nor a name the filter rejects. This fails: for the page
  ``A'' the record written holds ``A'' itself and ``List of x'', while the list returned
  is filtered.
\<close>

theorem durable_record_unfiltered_counterexample:
  "pages_db w_init ''A'' = None
   \<and> pages_db (snd (get_page_links_with_cache w_init ''A'')) ''A''
       = Some [''B'', ''A'', ''List of x'', ''Physics'']
   \<and> fst (get_page_links_with_cache w_init ''A'') = Inr [''B'', ''Physics'']
   \<and> \<not> is_regular_page ''List of x''"
  using db_after_lookup_A first_lookup_A not_regular_List by (simp add: w_init_def)

text \<open>
  Claim C5, amended. A call of \<open>get_page_links_with_cache\<close> writes at most one record to
  the database, and that record maps the topic to the raw list obtained from the source:
  its links followed by its categories, unfiltered. The filter and the exclusion of the
  topic are applied after reading: when the memory cache holds only filtered lists, the
  list returned holds neither the topic itself nor an empty or filtered-out name, and the
  memory cache again holds only filtered lists.
\<close>

theorem durable_record_is_raw_list:
  assumes "get_page_links_with_cache w t = (res, w')"
  shows "(pages_db w' = pages_db w
          \<or> (\<exists>p wb. get_page (advance (snd (get_db_connection (w\<lparr>lookups := lookups w @ [t]\<rparr>)))) t
                       = (Some p, wb)
                    \<and> pages_db w' = (pages_db w)(t \<mapsto> raw_links p)))
         \<and> (hot_tier_filtered w \<longrightarrow>
              hot_tier_filtered w'
              \<and> (\<forall>r. res = Inr r \<longrightarrow> t \<notin> set r \<and> (\<forall>x \<in> set r. x \<noteq> [] \<and> is_regular_page x)))"
proof (cases "t = []")
  case True
  with assms have "res = Inr []" and "w' = w\<lparr>lookups := lookups w @ [t]\<rparr>"
    by (auto simp: get_page_links_with_cache_def)
  then show ?thesis
    by (simp add: hot_tier_filtered_def)
next
  case t: False
  let ?w = "w\<lparr>lookups := lookups w @ [t]\<rparr>"
  have hw: "hot_tier_filtered ?w = hot_tier_filtered w"
    by (simp add: hot_tier_filtered_def)
  show ?thesis
  proof (cases "map_of (memory_cache w) t")
    case (Some ls)
    with assms t have res: "res = Inr ls" and w': "w' = ?w"
      by (auto simp: get_page_links_with_cache_def)
    from Some have "(t, ls) \<in> set (memory_cache w)"
      by (rule map_of_SomeD)
    then have "hot_tier_filtered w \<Longrightarrow> t \<notin> set ls \<and> (\<forall>x \<in> set ls. x \<noteq> [] \<and> is_regular_page x)"
      unfolding hot_tier_filtered_def by blast
    with res w' hw show ?thesis by simp
  next
    case None
    obtain rc wc where c: "get_db_connection ?w = (rc, wc)"
      by (cases "get_db_connection ?w")
    note fc = get_db_connection_frame [OF c]
    show ?thesis
    proof (cases rc)
      case (Inl e)
      with assms t None c have "res = Inl e" and "w' = wc"
        by (auto simp: get_page_links_with_cache_def)
      with fc hw show ?thesis
        by (simp add: hot_tier_filtered_def)
    next
      case (Inr u)
      obtain rs ws where s: "db_select wc t = (rs, ws)"
        by (cases "db_select wc t")
      note fs = db_select_frame [OF s]
      have ws: "memory_cache ws = memory_cache w" "pages_db ws = pages_db w"
        using fs fc by (simp_all add: advance_def)
      then have hws: "hot_tier_filtered ws = hot_tier_filtered w"
        by (simp add: hot_tier_filtered_def)
      show ?thesis
      proof (cases rs)
        case (Inl e)
        with assms t None c Inr s have "res = Inr []" and "w' = store_empty ws t"
          by (auto simp: get_page_links_with_cache_def)
        with ws hws store_empty_filtered [of ws t] show ?thesis
          by (simp add: store_empty_def)
      next
        case rs: (Inr row)
        show ?thesis
        proof (cases row)
          case (Some ls)
          obtain f wf where f: "filter_and_store ws t ls = (f, wf)"
            by (cases "filter_and_store ws t ls")
          with assms t None c Inr s rs Some have "res = Inr f" and "w' = wf"
            by (auto simp: get_page_links_with_cache_def)
          with filter_and_store_filtered [OF f] ws hws show ?thesis
            by auto
        next
          case row: None
          obtain pg wp where g: "get_page ws t = (pg, wp)"
            by (cases "get_page ws t")
          note fg = get_page_frame [OF g]
          have wp: "hot_tier_filtered wp = hot_tier_filtered w"
            using fg ws by (simp add: hot_tier_filtered_def)
          show ?thesis
          proof (cases pg)
            case None
            with assms t \<open>map_of (memory_cache w) t = None\<close> c Inr s rs row g
            have "res = Inr []" and "w' = store_empty wp t"
              by (auto simp: get_page_links_with_cache_def)
            with fg ws wp store_empty_filtered [of wp t] show ?thesis
              by (simp add: store_empty_def)
          next
            case (Some p)
            let ?wi = "db_insert wp t (raw_links p)"
            obtain f wf where f: "filter_and_store ?wi t (raw_links p) = (f, wf)"
              by (cases "filter_and_store ?wi t (raw_links p)")
            from assms t \<open>map_of (memory_cache w) t = None\<close> c Inr s rs row g Some f
            have res: "res = Inr f" and w': "w' = wf"
              by (auto simp: get_page_links_with_cache_def)
            have wi: "memory_cache ?wi = memory_cache w"
              "pages_db ?wi = pages_db w \<or> pages_db ?wi = (pages_db w)(t \<mapsto> raw_links p)"
              using fg ws by (auto simp: db_insert_def advance_def)
            then have hwi: "hot_tier_filtered ?wi = hot_tier_filtered w"
              by (simp add: hot_tier_filtered_def)
            have gp: "get_page (advance (snd (get_db_connection ?w))) t = (Some p, wp)"
              using g Some fs c by simp
            from filter_and_store_filtered [OF f] res w' wi hwi gp show ?thesis
              by auto
          qed
        qed
      qed
    qed
  qed
qed

theorem durable_record_is_raw_list_witness:
  "hot_tier_filtered w_init
   \<and> pages_db (snd (get_page_links_with_cache w_init ''A'')) = [''A'' \<mapsto> raw_links page_A]
   \<and> hot_tier_filtered (snd (get_page_links_with_cache w_init ''A''))
   \<and> ''A'' \<notin> set [''B'', ''Physics'']"
proof -
  have h: "get_page_links_with_cache w_init ''A''
             = (Inr [''B'', ''Physics''], snd (get_page_links_with_cache w_init ''A''))"
    using first_lookup_A by (simp add: prod_eq_iff)
  have i: "hot_tier_filtered w_init"
    by (simp add: hot_tier_filtered_def w_init_def)
  have d: "pages_db (snd (get_page_links_with_cache w_init ''A'')) = [''A'' \<mapsto> raw_links page_A]"
    by (simp add: get_page_links_with_cache_def w_init_def get_db_connection_def db_select_def
      advance_def get_page_def wikipedia_page_call_def raw_links_def db_insert_def
      filter_and_store_def Let_def page_A_def)
  show ?thesis
    using durable_record_is_raw_list [OF h] i d by simp
qed

section \<open>Claims about path validation\<close>

lemma length_lookup_all: "length (lookup_all w as) = length as"
  by (induction as arbitrary: w) (auto split: prod.splits)

lemma verify_pairs_iff:
  "fst (verify_pairs w path is) \<longleftrightarrow>
     (\<forall>j < length is. \<exists>ls. lookup_all w (map ((!) path) is) ! j = Inr ls
                          \<and> path ! (is ! j + 1) \<in> set ls)"
proof (induction "is" arbitrary: w)
  case Nil
  then show ?case by simp
next
  case (Cons i "is")
  obtain r w' where step: "get_page_links_with_cache w (path ! i) = (r, w')"
    by (cases "get_page_links_with_cache w (path ! i)")
  show ?case
  proof (cases r)
    case (Inl e)
    with step show ?thesis by auto
  next
    case (Inr ls)
    show ?thesis
    proof (cases "path ! (i + 1) \<in> set ls")
      case True
      with step Inr Cons.IH [of w'] show ?thesis
        by (simp add: All_less_Suc2)
    next
      case False
      with step Inr show ?thesis by auto
    qed
  qed
qed

lemma map_nth_upt_butlast: "map ((!) xs) [0..<length xs - Suc 0] = butlast xs"
  by (rule nth_equalityI) (simp_all add: nth_butlast)

lemma verify_path_exists_edges:
  "fst (verify_path_exists w path) \<longleftrightarrow>
     (\<forall>i. Suc i < length path \<longrightarrow>
          (\<exists>ls. lookup_all w (butlast path) ! i = Inr ls \<and> path ! Suc i \<in> set ls))"
proof (cases "length path < 2")
  case True
  then show ?thesis by (simp add: verify_path_exists_def)
next
  case False
  then have "fst (verify_path_exists w path) = fst (verify_pairs w path [0..<length path - 1])"
    by (simp add: verify_path_exists_def)
  also have "\<dots> \<longleftrightarrow> (\<forall>j < length path - 1. \<exists>ls. lookup_all w (butlast path) ! j = Inr ls
                        \<and> path ! (j + 1) \<in> set ls)"
    by (simp add: verify_pairs_iff map_nth_upt_butlast)
  also have "\<dots> \<longleftrightarrow> (\<forall>i. Suc i < length path \<longrightarrow>
              (\<exists>ls. lookup_all w (butlast path) ! i = Inr ls \<and> path ! Suc i \<in> set ls))"
    by (simp add: less_diff_conv)
  finally show ?thesis .
qed

lemma failed_fetch_empty:
  assumes "t \<noteq> []" and "map_of (memory_cache w) t = None" and "has_conn w"
    and "select_raises w (tick w)
         \<or> (pages_db w t = None
             \<and> fst (get_page (advance (w\<lparr>lookups := lookups w @ [t]\<rparr>)) t) = None)"
  shows "fst (get_page_links_with_cache w t) = Inr []"
proof -
  let ?wl = "w\<lparr>lookups := lookups w @ [t]\<rparr>"
  have c: "get_db_connection ?wl = (Inr (), ?wl)"
    using assms(3) by (simp add: get_db_connection_def)
  show ?thesis
  proof (cases "select_raises w (tick w)")
    case True
    then have "db_select ?wl t = (Inl DatabaseError, advance ?wl)"
      by (simp add: db_select_def)
    with assms(1,2) c show ?thesis
      by (simp add: get_page_links_with_cache_def)
  next
    case False
    with assms(4) have row: "pages_db w t = None"
      and g: "fst (get_page (advance ?wl) t) = None"
      by simp_all
    from False row have "db_select ?wl t = (Inr None, advance ?wl)"
      by (simp add: db_select_def)
    moreover from g obtain w3 where "get_page (advance ?wl) t = (None, w3)"
      by (cases "get_page (advance ?wl) t") simp
    ultimately show ?thesis
      using assms(1,2) c by (simp add: get_page_links_with_cache_def)
  qed
qed

lemma verify_pair_empty:
  assumes "fst (get_page_links_with_cache w a) = Inr []"
  shows "\<not> fst (verify_path_exists w [a, b])"
proof -
  from assms obtain w' where "get_page_links_with_cache w a = (Inr [], w')"
    by (cases "get_page_links_with_cache w a") simp
  then show ?thesis
    by (simp add: verify_path_exists_def)
qed

lemma get_page_cached_Z:
  "fst (get_page (advance (w_cached\<lparr>lookups := lookups w_cached @ [''Z'']\<rparr>)) ''Z'') = None"
  by (simp add: get_page_def wikipedia_page_call_def wikipedia_search_call_def
      python_fallback_def advance_def w_cached_def)

lemma cached_Z:
  "''Z'' \<noteq> [] \<and> map_of (memory_cache w_cached) ''Z'' = None \<and> has_conn w_cached
   \<and> \<not> select_raises w_cached (tick w_cached) \<and> pages_db w_cached ''Z'' = None"
  by (simp add: w_cached_def)

lemma lookup_all_cached:
  "lookup_all w_cached [''A'', ''B''] = [Inr [''B''], Inr [''C'']]"
  by (simp add: get_page_links_with_cache_def w_cached_def)

lemma lookup_all_offline:
  "lookup_all w_offline [''A''] = [Inl DatabaseError]"
  by (simp add: get_page_links_with_cache_def w_offline_def get_db_connection_def)

text \<open>
  Claim C2. \<open>verify_path_exists\<close> answers True, without any lookup, for a path of
  length 0 or 1. For a longer path it answers True exactly when, for every consecutive
  pair \<open>(a, b)\<close> of the path, the lookup of \<open>a\<close> returns a list and \<open>b\<close> is in that list,
  the lookups being made in the order of the path. A lookup that raises makes the answer
  False, and so does a lookup that has to fetch the list and fails, because the database
  cannot be read or because the source does not find the page.
\<close>

theorem verify_path_exists_iff:
  "(length path \<le> 1 \<longrightarrow> verify_path_exists w path = (True, w))
   \<and> (2 \<le> length path \<longrightarrow>
        (fst (verify_path_exists w path) \<longleftrightarrow>
           (\<forall>i. Suc i < length path \<longrightarrow>
                (\<exists>ls. lookup_all w (butlast path) ! i = Inr ls \<and> path ! Suc i \<in> set ls))))
   \<and> (Suc i < length path \<and> lookup_all w (butlast path) ! i = Inl e
        \<longrightarrow> \<not> fst (verify_path_exists w path))
   \<and> (a \<noteq> [] \<and> map_of (memory_cache w) a = None \<and> has_conn w
        \<and> (select_raises w (tick w)
            \<or> (pages_db w a = None
                \<and> fst (get_page (advance (w\<lparr>lookups := lookups w @ [a]\<rparr>)) a) = None))
        \<longrightarrow> \<not> fst (verify_path_exists w [a, b]))"
proof -
  have short: "verify_path_exists w path = (True, w)" if "length path \<le> 1"
    using that by (simp add: verify_path_exists_def)
  have long: "fst (verify_path_exists w path) \<longleftrightarrow>
           (\<forall>i. Suc i < length path \<longrightarrow>
                (\<exists>ls. lookup_all w (butlast path) ! i = Inr ls \<and> path ! Suc i \<in> set ls))"
    by (rule verify_path_exists_edges)
  have closed: "\<not> fst (verify_path_exists w path)"
    if "Suc i < length path \<and> lookup_all w (butlast path) ! i = Inl e"
    using long that by auto
  have failed: "\<not> fst (verify_path_exists w [a, b])"
    if "a \<noteq> [] \<and> map_of (memory_cache w) a = None \<and> has_conn w
        \<and> (select_raises w (tick w)
            \<or> (pages_db w a = None
                \<and> fst (get_page (advance (w\<lparr>lookups := lookups w @ [a]\<rparr>)) a) = None))"
  proof -
    from that have "fst (get_page_links_with_cache w a) = Inr []"
      by (intro failed_fetch_empty) simp_all
    then show ?thesis by (rule verify_pair_empty)
  qed
  from short long closed failed show ?thesis by blast
qed

theorem verify_path_exists_iff_witness:
  "verify_path_exists w_cached [''A''] = (True, w_cached)
   \<and> lookup_all w_cached [''A'', ''B''] = [Inr [''B''], Inr [''C'']]
   \<and> fst (verify_path_exists w_cached [''A'', ''B'', ''C''])
   \<and> lookup_all w_offline [''A''] = [Inl DatabaseError]
   \<and> \<not> fst (verify_path_exists w_offline [''A'', ''B''])
   \<and> fst (get_page (advance (w_cached\<lparr>lookups := lookups w_cached @ [''Z'']\<rparr>)) ''Z'') = None
   \<and> \<not> fst (verify_path_exists w_cached [''Z'', ''A''])"
proof -
  note inst1 = verify_path_exists_iff [of "[''A'']" w_cached 0 DatabaseError "[]" "[]"]
  note inst2 = verify_path_exists_iff [of "[''A'', ''B'', ''C'']" w_cached 0 DatabaseError "[]" "[]"]
  note inst3 = verify_path_exists_iff [of "[''A'', ''B'']" w_offline 0 DatabaseError "[]" "[]"]
  note inst4 = verify_path_exists_iff [of "[]" w_cached 0 DatabaseError "''Z''" "''A''"]
  have a: "verify_path_exists w_cached [''A''] = (True, w_cached)"
    using inst1 by simp
  have "\<forall>i. Suc i < length [''A'', ''B'', ''C''] \<longrightarrow>
          (\<exists>ls. lookup_all w_cached (butlast [''A'', ''B'', ''C'']) ! i = Inr ls
                \<and> [''A'', ''B'', ''C''] ! Suc i \<in> set ls)"
    using lookup_all_cached by (auto simp: less_Suc_eq)
  moreover have "2 \<le> length [''A'', ''B'', ''C'']" by simp
  ultimately have b: "fst (verify_path_exists w_cached [''A'', ''B'', ''C''])"
    using inst2 by blast
  have "Suc 0 < length [''A'', ''B''] \<and> lookup_all w_offline (butlast [''A'', ''B'']) ! 0 = Inl DatabaseError"
    using lookup_all_offline by simp
  then have c: "\<not> fst (verify_path_exists w_offline [''A'', ''B''])"
    using inst3 by blast
  have d: "\<not> fst (verify_path_exists w_cached [''Z'', ''A''])"
    using inst4 cached_Z get_page_cached_Z by blast
  from a b c d lookup_all_cached lookup_all_offline get_page_cached_Z show ?thesis by simp
qed

section \<open>Facts about the search loop\<close>

lemma nodes_processed_enqueue: "nodes_processed (enqueue st path ns) = nodes_processed st"
  by (induction ns arbitrary: st) auto

lemma nodes_processed_process_node:
  "process_node w end_title max_depth st current_title path = (r, st', w')
     \<Longrightarrow> nodes_processed st' = nodes_processed st"
  by (auto simp: process_node_def nodes_processed_enqueue
           split: if_splits prod.splits sum.splits option.splits)

text \<open>The four ways through one test of the loop condition and one iteration.\<close>

lemma bfs_loop_exhausted:
  "queue st = [] \<or> \<not> nodes_processed st < max_nodes
     \<Longrightarrow> bfs_loop w e md t s0 st = (None, st, w)"
  by (auto simp: bfs_loop.simps split: list.splits)

lemma bfs_loop_timeout:
  "queue st = (c, path) # rest \<Longrightarrow> nodes_processed st < max_nodes
     \<Longrightarrow> time_time w = (now, w1) \<Longrightarrow> t < now - s0
     \<Longrightarrow> bfs_loop w e md t s0 st = (None, st, w1)"
  by (simp add: bfs_loop.simps)

lemma bfs_loop_return:
  "queue st = (c, path) # rest \<Longrightarrow> nodes_processed st < max_nodes
     \<Longrightarrow> time_time w = (now, w1) \<Longrightarrow> \<not> t < now - s0
     \<Longrightarrow> process_node w1 e md (st\<lparr>queue := rest, nodes_processed := nodes_processed st + 1\<rparr>)
           c path = (Some p, st2, w2)
     \<Longrightarrow> bfs_loop w e md t s0 st = (Some p, st2, w2)"
  by (simp add: bfs_loop.simps)

lemma bfs_loop_continue:
  "queue st = (c, path) # rest \<Longrightarrow> nodes_processed st < max_nodes
     \<Longrightarrow> time_time w = (now, w1) \<Longrightarrow> \<not> t < now - s0
     \<Longrightarrow> process_node w1 e md (st\<lparr>queue := rest, nodes_processed := nodes_processed st + 1\<rparr>)
           c path = (None, st2, w2)
     \<Longrightarrow> bfs_loop w e md t s0 st = bfs_loop w2 e md t s0 st2"
  by (simp add: bfs_loop.simps)

text \<open>A loop invariant rule: \<open>I\<close> is kept by every iteration, \<open>Q\<close> holds of every path
  an iteration returns.\<close>

lemma bfs_loop_invariant:
  assumes run: "bfs_loop w e md t s0 st = (r, st', w')"
    and init: "I st"
    and step: "\<And>st w c path rest r2 st2 w2.
                 I st \<Longrightarrow> queue st = (c, path) # rest \<Longrightarrow> nodes_processed st < max_nodes
                 \<Longrightarrow> process_node w e md
                       (st\<lparr>queue := rest, nodes_processed := nodes_processed st + 1\<rparr>) c path
                     = (r2, st2, w2)
                 \<Longrightarrow> I st2 \<and> (\<forall>p. r2 = Some p \<longrightarrow> Q p)"
  shows "I st' \<and> (\<forall>p. r = Some p \<longrightarrow> Q p)"
  using run init step
proof (induction w e md t s0 st rule: bfs_loop.induct)
  case (1 w e md t s0 st)
  show ?case
  proof (cases "queue st = [] \<or> \<not> nodes_processed st < max_nodes")
    case True
    from bfs_loop_exhausted [OF this] "1.prems" show ?thesis by simp
  next
    case False
    then obtain c path rest where q: "queue st = (c, path) # rest"
      and bound: "nodes_processed st < max_nodes"
      by (cases "queue st") auto
    obtain now w1 where tm: "time_time w = (now, w1)"
      by (cases "time_time w")
    show ?thesis
    proof (cases "t < now - s0")
      case True
      from bfs_loop_timeout [OF q bound tm True] "1.prems" show ?thesis by simp
    next
      case late: False
      let ?st1 = "st\<lparr>queue := rest, nodes_processed := nodes_processed st + 1\<rparr>"
      obtain r2 st2 w2 where p: "process_node w1 e md ?st1 c path = (r2, st2, w2)"
        by (cases "process_node w1 e md ?st1 c path")
      note step1 = "1.prems"(3)
      from step1 [OF "1.prems"(2) q bound p]
      have I2: "I st2" and Q2: "\<forall>p. r2 = Some p \<longrightarrow> Q p" by simp_all
      show ?thesis
      proof (cases r2)
        case (Some fp)
        with bfs_loop_return [OF q bound tm late] p "1.prems"(1) I2 Q2 show ?thesis
          by simp
      next
        case None
        with bfs_loop_continue [OF q bound tm late] p "1.prems"(1)
        have run2: "bfs_loop w2 e md t s0 st2 = (r, st', w')" by simp
        from None p have p': "(None, st2, w2) = process_node w1 e md ?st1 c path" by simp
        show ?thesis
          by (rule "1.IH" [OF q refl bound tm [symmetric] late p' refl refl run2 I2 step1])
      qed
    qed
  qed
qed

lemma bfs_loop_nodes_processed:
  assumes "bfs_loop w e md t s0 st = (r, st', w')" and "nodes_processed st \<le> max_nodes"
  shows "nodes_processed st' \<le> max_nodes"
proof -
  have "nodes_processed st' \<le> max_nodes \<and> (\<forall>p. r = Some p \<longrightarrow> True)"
  proof (rule bfs_loop_invariant [OF assms(1), where I = "\<lambda>s. nodes_processed s \<le> max_nodes"])
    show "nodes_processed st \<le> max_nodes" by (rule assms(2))
  next
    fix st w c path rest r2 st2 w2
    assume "nodes_processed st < max_nodes"
      and "process_node w e md (st\<lparr>queue := rest, nodes_processed := nodes_processed st + 1\<rparr>)
             c path = (r2, st2, w2)"
    then show "nodes_processed st2 \<le> max_nodes \<and> (\<forall>p. r2 = Some p \<longrightarrow> True)"
      using nodes_processed_process_node by fastforce
  qed
  then show ?thesis by simp
qed


lemmas cached_eval =
  get_page_links_with_cache_def verify_path_exists_def find_direct_connection_def
  time_time_def advance_def process_node_def top_neighbors_def w_cached_def Let_def

lemma direct_cached:
  "find_direct_connection (advance w_cached) ''A'' ''C''
     = (None, (advance w_cached)\<lparr>lookups := [''A'', ''C'']\<rparr>)"
  by (simp add: cached_eval)

lemma bfs_loop_cached:
  assumes "0 \<le> t"
  shows "bfs_loop ((advance w_cached)\<lparr>lookups := [''A'', ''C'']\<rparr>) ''C'' 6 t 0
           \<lparr>queue = [(''A'', [''A''])], visited = {''A''}, nodes_processed = 0\<rparr>
         = (Some [''A'', ''B'', ''C''],
            \<lparr>queue = [], visited = {''B'', ''A''}, nodes_processed = 2\<rparr>,
            w_cached\<lparr>lookups := [''A'', ''C'', ''A'', ''B'', ''A'', ''B''], tick := 3\<rparr>)"
  using assms
  by (simp add: bfs_loop.simps [of _ _ _ _ _ "\<lparr>queue = _ # _, visited = _, nodes_processed = _\<rparr>"] cached_eval max_nodes_def)


lemma score_neighbors_None:
  "score_neighbors w e path vis scored ns = (None, sc, w')
     \<Longrightarrow> sc = scored @ map (\<lambda>n. (n, score (title_words e) n))
                         (filter (\<lambda>n. n \<notin> vis \<and> length n < 100) ns)"
proof (induction ns arbitrary: w scored)
  case Nil
  then show ?case by simp
next
  case (Cons n ns)
  obtain ok w1 where v: "(if n = e then verify_path_exists w (path @ [n]) else (False, w)) = (ok, w1)"
    by (cases "if n = e then verify_path_exists w (path @ [n]) else (False, w)")
  with Cons.prems have nok: "\<not> ok" by (cases ok) auto
  let ?scored = "if n \<notin> vis \<and> length n < 100
                 then scored @ [(n, score (title_words e) n)] else scored"
  from Cons.prems v nok have "score_neighbors w1 e path vis ?scored ns = (None, sc, w')"
    by simp
  from Cons.IH [OF this] show ?case by simp
qed

lemma enqueue_result:
  "\<exists>new. enqueue st path ns
            = st\<lparr>queue := queue st @ map (\<lambda>n. (n, path @ [n])) new,
                 visited := visited st \<union> set ns\<rparr>
         \<and> distinct new \<and> set new = set ns - visited st
         \<and> (distinct ns \<and> set ns \<inter> visited st = {} \<longrightarrow> new = ns)"
proof (induction ns arbitrary: st)
  case Nil
  show ?case by (rule exI [of _ "[]"]) simp
next
  case (Cons n ns)
  show ?case
  proof (cases "n \<in> visited st")
    case True
    from Cons.IH [of st] obtain new where
      new: "enqueue st path ns
              = st\<lparr>queue := queue st @ map (\<lambda>n. (n, path @ [n])) new,
                   visited := visited st \<union> set ns\<rparr>"
        "distinct new" "set new = set ns - visited st"
      by blast
    from True have "visited st \<union> set (n # ns) = visited st \<union> set ns" by auto
    with new True show ?thesis
      by (intro exI [of _ new]) auto
  next
    case False
    let ?st1 = "st\<lparr>queue := queue st @ [(n, path @ [n])], visited := insert n (visited st)\<rparr>"
    from Cons.IH [of ?st1] obtain new where
      new: "enqueue ?st1 path ns
              = ?st1\<lparr>queue := queue ?st1 @ map (\<lambda>n. (n, path @ [n])) new,
                     visited := visited ?st1 \<union> set ns\<rparr>"
        "distinct new" "set new = set ns - visited ?st1"
        "distinct ns \<and> set ns \<inter> visited ?st1 = {} \<longrightarrow> new = ns"
      by blast
    have "enqueue st path (n # ns)
            = st\<lparr>queue := queue st @ map (\<lambda>n. (n, path @ [n])) (n # new),
                 visited := visited st \<union> set (n # ns)\<rparr>"
      using False new(1) by simp
    moreover have "distinct (n # new)"
      using new(2,3) by simp
    moreover have "set (n # new) = set (n # ns) - visited st"
      using new(3) False by auto
    moreover have "distinct (n # ns) \<and> set (n # ns) \<inter> visited st = {} \<longrightarrow> n # new = n # ns"
      using new(4) by auto
    ultimately show ?thesis by blast
  qed
qed

lemma sort_rank_le:
  "sort_rank x \<le> sort_rank y \<longleftrightarrow>
     snd y < snd x \<or> (snd x = snd y \<and> length (fst x) \<le> length (fst y))"
  by (auto simp: sort_rank_def)

lemma take_drop_sorted:
  assumes "sorted (map f xs)"
  shows "\<forall>x \<in> set (take k xs). \<forall>y \<in> set (drop k xs). f x \<le> f y"
proof -
  have "sorted (map f (take k xs) @ map f (drop k xs))"
    using assms by (simp flip: map_append)
  then show ?thesis
    by (auto simp: sorted_append)
qed

lemma hub_scores:
  "map (\<lambda>n. (n, score (title_words ''Red Star'') n)) hub_links = hub_scored"
  by code_simp

lemma hub_lookup:
  "get_page_links_with_cache w_hub ''Hub'' = (Inr hub_links, w_hub\<lparr>lookups := [''Hub'']\<rparr>)"
  by (simp add: get_page_links_with_cache_def w_hub_def w_cached_def)

lemma score_neighbors_no_target:
  "e \<notin> set ns
     \<Longrightarrow> score_neighbors w e path vis acc ns
           = (None,
              acc @ map (\<lambda>n. (n, score (title_words e) n))
                      (filter (\<lambda>n. n \<notin> vis \<and> length n < 100) ns),
              w)"
  by (induction ns arbitrary: acc) auto

lemma hub_score_neighbors:
  "score_neighbors (w_hub\<lparr>lookups := [''Hub'']\<rparr>) ''Red Star'' [''Hub''] {''Hub''} [] hub_links
     = (None, hub_scored, w_hub\<lparr>lookups := [''Hub'']\<rparr>)"
proof -
  have "''Red Star'' \<notin> set hub_links"
    by (simp add: hub_links_def)
  moreover have "filter (\<lambda>n. n \<notin> {''Hub''} \<and> length n < 100) hub_links = hub_links"
    by (simp add: hub_links_def)
  ultimately show ?thesis
    by (simp add: score_neighbors_no_target hub_scores)
qed

lemma hub_ranking:
  "map fst (take 10 (sort_key sort_rank hub_scored))
     = [''Star_Red'', ''RED'', ''B'', ''Aa'', ''Cc'', ''Dd'', ''Ee'', ''Ff'', ''Gg'', ''Hh'']"
  by (simp add: hub_scored_def sort_rank_def)

lemma hub_tokens:
  "title_words ''Red_Star  of THE east'' = {''red'', ''star'', ''of'', ''the'', ''east''}
   \<and> split ''Red_Star  of THE east'' = [''Red_Star'', ''of'', ''THE'', ''east'']"
  by code_simp

lemma dup_scores:
  "map (\<lambda>n. (n, score (title_words ''Zz'') n)) dup_links = map (\<lambda>n. (n, 1)) dup_links"
  by code_simp

lemma underscore_bonus:
  "score (title_words ''Zz'') ''v_w_x_y_z'' = 1
   \<and> length (split (replace_underscore (lower ''v_w_x_y_z''))) = 5"
  by code_simp

lemma dup_lookup:
  "get_page_links_with_cache w_dup ''Hub'' = (Inr dup_links, w_dup\<lparr>lookups := [''Hub'']\<rparr>)"
  by (simp add: get_page_links_with_cache_def w_dup_def w_cached_def)

lemma dup_score_neighbors:
  "score_neighbors (w_dup\<lparr>lookups := [''Hub'']\<rparr>) ''Zz'' [''Hub''] {''Hub''} [] dup_links
     = (None, map (\<lambda>n. (n, 1)) dup_links, w_dup\<lparr>lookups := [''Hub'']\<rparr>)"
proof -
  have "''Zz'' \<notin> set dup_links"
    by (simp add: dup_links_def)
  moreover have "filter (\<lambda>n. n \<notin> {''Hub''} \<and> length n < 100) dup_links = dup_links"
    by (simp add: dup_links_def)
  ultimately show ?thesis
    by (simp add: score_neighbors_no_target dup_scores)
qed

lemma dup_ranking:
  "top_neighbors (map (\<lambda>n. (n, 1)) dup_links)
     = [''Aa'', ''Aa'', ''Bb'', ''Bb'', ''Cc'', ''Cc'', ''Dd'', ''Dd'', ''Ee'', ''Ee'']"
  by (simp add: top_neighbors_def dup_links_def sort_rank_def)

section \<open>Claims about the search loop\<close>

text \<open>
  Claim C6. In every run of the search loop of \<open>find_path_bfs\<close>, which starts with the
  counter \<open>nodes_processed\<close> at 0 and counts every node it dequeues, at most 5000 nodes
  are dequeued. A dequeued node whose path already has \<open>max_depth\<close> elements is not
  expanded: no lookup is made, so the state and its lookup history stay as they are, and
  the queue and the visited set stay as they are, so nothing is enqueued.
\<close>

theorem bfs_dequeue_bound:
  "(bfs_loop w end_title max_depth timeout start_time
       \<lparr>queue = q, visited = v, nodes_processed = 0\<rparr> = (r, st', w')
      \<longrightarrow> nodes_processed st' \<le> 5000)
   \<and> (max_depth \<le> int (length path)
        \<longrightarrow> process_node w1 end_title max_depth st current_title path = (None, st, w1))"
proof (intro conjI impI)
  assume "bfs_loop w end_title max_depth timeout start_time
            \<lparr>queue = q, visited = v, nodes_processed = 0\<rparr> = (r, st', w')"
  from bfs_loop_nodes_processed [OF this] show "nodes_processed st' \<le> 5000"
    by (simp add: max_nodes_def)
next
  assume "max_depth \<le> int (length path)"
  then show "process_node w1 end_title max_depth st current_title path = (None, st, w1)"
    by (simp add: process_node_def)
qed

theorem bfs_dequeue_bound_witness:
  "nodes_processed \<lparr>queue = [], visited = {''B'', ''A''}, nodes_processed = 2\<rparr> \<le> 5000
   \<and> process_node w_cached ''C'' 1 \<lparr>queue = [], visited = {''A''}, nodes_processed = 1\<rparr>
         ''A'' [''A'']
       = (None, \<lparr>queue = [], visited = {''A''}, nodes_processed = 1\<rparr>, w_cached)"
proof -
  have run: "bfs_loop ((advance w_cached)\<lparr>lookups := [''A'', ''C'']\<rparr>) ''C'' 6 15 0
               \<lparr>queue = [(''A'', [''A''])], visited = {''A''}, nodes_processed = 0\<rparr>
             = (Some [''A'', ''B'', ''C''],
                \<lparr>queue = [], visited = {''B'', ''A''}, nodes_processed = 2\<rparr>,
                w_cached\<lparr>lookups := [''A'', ''C'', ''A'', ''B'', ''A'', ''B''], tick := 3\<rparr>)"
    by (rule bfs_loop_cached) simp
  have deep: "(1::int) \<le> int (length [''A''])" by simp
  note inst1 = bfs_dequeue_bound [of "(advance w_cached)\<lparr>lookups := [''A'', ''C'']\<rparr>" "''C''" 6 15 0
      "[(''A'', [''A''])]" "{''A''}" "Some [''A'', ''B'', ''C'']"
      "\<lparr>queue = [], visited = {''B'', ''A''}, nodes_processed = 2\<rparr>"
      "w_cached\<lparr>lookups := [''A'', ''C'', ''A'', ''B'', ''A'', ''B''], tick := 3\<rparr>"]
  note inst2 = bfs_dequeue_bound [of _ "''C''" 1 _ _ _ _ _ _ _ "[''A'']" w_cached
      "\<lparr>queue = [], visited = {''A''}, nodes_processed = 1\<rparr>" "''A''"]
  from inst1 run have "nodes_processed \<lparr>queue = [], visited = {''B'', ''A''}, nodes_processed = 2\<rparr> \<le> 5000"
    by blast
  moreover from inst2 deep
  have "process_node w_cached ''C'' 1 \<lparr>queue = [], visited = {''A''}, nodes_processed = 1\<rparr>
          ''A'' [''A'']
        = (None, \<lparr>queue = [], visited = {''A''}, nodes_processed = 1\<rparr>, w_cached)"
    by blast
  ultimately show ?thesis by blast
qed

text \<open>
  Claim C7, as stated: the neighbours enqueued are exactly the top 10 candidates, and the
  bonus goes to a neighbour whose word count is at most 4, the words being those of the
  tokenisation at white space and underscores. Both fail. The candidate list keeps the
  duplicates of the reference list and is cut to 10 entries before duplicates are dropped:
  of the sixteen references of ``Hub'', eleven distinct topics that are all unvisited,
  short and equal in score and length, only five are enqueued. And the bonus counts the
  words of the title split at white space alone: ``v_w_x_y_z'' has five words when split
  at underscores and still gets the bonus.
\<close>

theorem top_ten_with_duplicates_counterexample:
  "map fst (queue (fst (snd (process_node w_dup ''Zz'' 6
                               \<lparr>queue = [], visited = {''Hub''}, nodes_processed = 1\<rparr>
                               ''Hub'' [''Hub'']))))
     = [''Aa'', ''Bb'', ''Cc'', ''Dd'', ''Ee'']
   \<and> remdups dup_links
       = [''Aa'', ''Bb'', ''Cc'', ''Dd'', ''Ee'', ''Ff'', ''Gg'', ''Hh'', ''Ii'', ''Jj'', ''Kk'']
   \<and> filter (\<lambda>n. n \<notin> {''Hub''} \<and> length n < 100) dup_links = dup_links
   \<and> map (score (title_words ''Zz'')) dup_links = replicate 16 1
   \<and> map length dup_links = replicate 16 2
   \<and> score (title_words ''Zz'') ''v_w_x_y_z'' = 1
   \<and> length (split (replace_underscore (lower ''v_w_x_y_z''))) = 5"
proof -
  have "process_node w_dup ''Zz'' 6 \<lparr>queue = [], visited = {''Hub''}, nodes_processed = 1\<rparr>
          ''Hub'' [''Hub'']
        = (None,
           enqueue \<lparr>queue = [], visited = {''Hub''}, nodes_processed = 1\<rparr> [''Hub'']
             [''Aa'', ''Aa'', ''Bb'', ''Bb'', ''Cc'', ''Cc'', ''Dd'', ''Dd'', ''Ee'', ''Ee''],
           w_dup\<lparr>lookups := [''Hub'']\<rparr>)"
    by (simp add: process_node_def dup_lookup dup_score_neighbors dup_ranking del: One_nat_def)
  then have q: "map fst (queue (fst (snd (process_node w_dup ''Zz'' 6
                               \<lparr>queue = [], visited = {''Hub''}, nodes_processed = 1\<rparr>
                               ''Hub'' [''Hub'']))))
     = [''Aa'', ''Bb'', ''Cc'', ''Dd'', ''Ee'']"
    by simp
  have r: "remdups dup_links
       = [''Aa'', ''Bb'', ''Cc'', ''Dd'', ''Ee'', ''Ff'', ''Gg'', ''Hh'', ''Ii'', ''Jj'', ''Kk'']"
    by (simp add: dup_links_def)
  have f: "filter (\<lambda>n. n \<notin> {''Hub''} \<and> length n < 100) dup_links = dup_links"
    by (simp add: dup_links_def)
  have s: "map (score (title_words ''Zz'')) dup_links = replicate 16 1"
    by code_simp
  have l: "map length dup_links = replicate 16 2"
    by code_simp
  from q r f s l underscore_bonus show ?thesis by simp
qed


text \<open>
  Claim C7, amended. When \<open>process_node\<close> expands a node and returns no path, it appends
  to the queue at most 10 neighbours, each with the path extended by it, each a reference
  of the node that is not yet visited and shorter than 100 characters. The candidates are
  the references of the node that are unvisited and shorter than 100 characters, in the
  order and with the multiplicity of the reference list, each with its score: the number
  of its lower-cased words, split at white space and underscores, that are words of the
  target, plus 1 when the title, split at white space alone, has at most 4 words. The
  candidates are sorted by descending score and, among equal scores, ascending title
  length (a stable sort: candidates equal in both keep their order), and the set of
  neighbours enqueued is the set of the first 10 entries of the sorted list, so that a
  topic listed twice takes two of the 10 places; every entry cut off ranks no better than
  every entry kept. When the reference list has no duplicates, the neighbours are
  enqueued exactly in the order of the first 10 entries. The words of a title are fixed
  by three equations: a title without white space and underscores is one word, itself in
  lower case; the words of two titles joined by a white-space character or an underscore
  are the words of both; the empty title has no words. Splitting at white space obeys the
  same equations with white space in place of both separators and without lower-casing.
\<close>

theorem process_node_enqueues_top:
  assumes "int (length path) < max_depth"
    and "get_page_links_with_cache w current_title = (Inr neighbors, w1)"
    and "score_neighbors w1 end_title path (visited st) [] neighbors = (None, scored, w2)"
  shows "\<exists>new.
           process_node w end_title max_depth st current_title path
             = (None,
                st\<lparr>queue := queue st @ map (\<lambda>n. (n, path @ [n])) new,
                    visited := visited st \<union> set new\<rparr>,
                w2)
         \<and> distinct new \<and> length new \<le> 10
         \<and> (\<forall>n \<in> set new. n \<in> set neighbors \<and> n \<notin> visited st \<and> length n < 100)
         \<and> scored = map (\<lambda>n. (n, score (title_words end_title) n))
                         (filter (\<lambda>n. n \<notin> visited st \<and> length n < 100) neighbors)
         \<and> (\<forall>n. score (title_words end_title) n
                  = card (title_words n \<inter> title_words end_title)
                    + (if length (split n) \<le> 4 then 1 else 0))
         \<and> (\<forall>a c b. isspace c \<or> c = CHR ''_''
                  \<longrightarrow> title_words (a @ c # b) = title_words a \<union> title_words b)
         \<and> (\<forall>u. u \<noteq> [] \<and> (\<forall>c \<in> set u. \<not> isspace c \<and> c \<noteq> CHR ''_'')
                  \<longrightarrow> title_words u = {lower u})
         \<and> title_words [] = {}
         \<and> (\<forall>a c b. isspace c \<longrightarrow> split (a @ c # b) = split a @ split b)
         \<and> (\<forall>u. u \<noteq> [] \<and> (\<forall>c \<in> set u. \<not> isspace c) \<longrightarrow> split u = [u])
         \<and> split [] = []
         \<and> set new = fst ` set (take 10 (sort_key sort_rank scored))
         \<and> sorted (map sort_rank (sort_key sort_rank scored))
         \<and> (\<forall>k. filter (\<lambda>x. sort_rank x = k) (sort_key sort_rank scored)
                  = filter (\<lambda>x. sort_rank x = k) scored)
         \<and> (\<forall>x \<in> set (take 10 (sort_key sort_rank scored)).
               \<forall>y \<in> set (drop 10 (sort_key sort_rank scored)).
                 snd y < snd x \<or> (snd x = snd y \<and> length (fst x) \<le> length (fst y)))
         \<and> (distinct neighbors \<longrightarrow> new = map fst (take 10 (sort_key sort_rank scored)))"
proof -
  let ?cands = "filter (\<lambda>n. n \<notin> visited st \<and> length n < 100) neighbors"
  let ?ranked = "sort_key sort_rank scored"
  let ?top = "top_neighbors scored"
  have sc: "scored = map (\<lambda>n. (n, score (title_words end_title) n)) ?cands"
    using score_neighbors_None [OF assms(3)] by simp
  have top_sub: "set ?top \<subseteq> set ?cands"
  proof -
    have "set (take 10 ?ranked) \<subseteq> set ?ranked"
      by (rule set_take_subset)
    then have "set ?top \<subseteq> fst ` set ?ranked"
      unfolding top_neighbors_def by auto
    also have "\<dots> = fst ` set scored" by simp
    also have "\<dots> = set ?cands" unfolding sc by force
    finally show ?thesis .
  qed
  then have unvisited: "set ?top \<inter> visited st = {}" by auto
  from enqueue_result [of st path ?top] obtain new where
    new: "enqueue st path ?top
            = st\<lparr>queue := queue st @ map (\<lambda>n. (n, path @ [n])) new,
                 visited := visited st \<union> set ?top\<rparr>"
      "distinct new" "set new = set ?top - visited st"
      "distinct ?top \<and> set ?top \<inter> visited st = {} \<longrightarrow> new = ?top"
    by blast
  from new(3) unvisited have set_new: "set new = set ?top" by auto
  have run: "process_node w end_title max_depth st current_title path
               = (None,
                  st\<lparr>queue := queue st @ map (\<lambda>n. (n, path @ [n])) new,
                      visited := visited st \<union> set new\<rparr>,
                  w2)"
    using assms new(1) set_new by (simp add: process_node_def)
  have "length new = card (set new)"
    using new(2) by (simp add: distinct_card)
  also have "\<dots> \<le> length ?top"
    unfolding set_new by (rule card_length)
  also have "\<dots> \<le> 10"
    by (simp add: top_neighbors_def)
  finally have len: "length new \<le> 10" .
  have props: "\<forall>n \<in> set new. n \<in> set neighbors \<and> n \<notin> visited st \<and> length n < 100"
    using top_sub set_new by auto
  have set_top: "set new = fst ` set (take 10 ?ranked)"
    using set_new by (simp add: top_neighbors_def)
  have sorted: "sorted (map sort_rank ?ranked)"
    by (rule sorted_sort_key)
  have stable: "\<forall>k. filter (\<lambda>x. sort_rank x = k) ?ranked = filter (\<lambda>x. sort_rank x = k) scored"
    by (simp add: sort_key_stable)
  have cut: "\<forall>x \<in> set (take 10 ?ranked). \<forall>y \<in> set (drop 10 ?ranked).
               snd y < snd x \<or> (snd x = snd y \<and> length (fst x) \<le> length (fst y))"
    using take_drop_sorted [OF sorted, of 10] by (simp add: sort_rank_le)
  have dist: "new = map fst (take 10 ?ranked)" if d: "distinct neighbors"
  proof -
    from d have "distinct (map fst scored)"
      unfolding sc by (simp add: comp_def)
    then have "distinct (map fst ?ranked)"
      by (metis distinct_map distinct_sort set_sort inj_on_cong)
    then have "distinct (take 10 (map fst ?ranked))"
      by (rule distinct_take)
    then have "distinct ?top"
      by (simp add: top_neighbors_def take_map)
    with new(4) unvisited show ?thesis
      by (simp add: top_neighbors_def)
  qed
  have sc_def: "\<forall>n. score (title_words end_title) n
                  = card (title_words n \<inter> title_words end_title)
                    + (if length (split n) \<le> 4 then 1 else 0)"
    by (simp add: score_def)
  have words: "(\<forall>a c b. isspace c \<or> c = CHR ''_''
                  \<longrightarrow> title_words (a @ c # b) = title_words a \<union> title_words b)
         \<and> (\<forall>u. u \<noteq> [] \<and> (\<forall>c \<in> set u. \<not> isspace c \<and> c \<noteq> CHR ''_'')
                  \<longrightarrow> title_words u = {lower u})
         \<and> title_words [] = {}
         \<and> (\<forall>a c b. isspace c \<longrightarrow> split (a @ c # b) = split a @ split b)
         \<and> (\<forall>u. u \<noteq> [] \<and> (\<forall>c \<in> set u. \<not> isspace c) \<longrightarrow> split u = [u])
         \<and> split [] = []"
    using title_words_separator title_words_word title_words_empty split_append_space
      split_word
    by (simp add: split_def)
  have rest: "set new = fst ` set (take 10 (sort_key sort_rank scored))
         \<and> sorted (map sort_rank (sort_key sort_rank scored))
         \<and> (\<forall>k. filter (\<lambda>x. sort_rank x = k) (sort_key sort_rank scored)
                  = filter (\<lambda>x. sort_rank x = k) scored)
         \<and> (\<forall>x \<in> set (take 10 (sort_key sort_rank scored)).
               \<forall>y \<in> set (drop 10 (sort_key sort_rank scored)).
                 snd y < snd x \<or> (snd x = snd y \<and> length (fst x) \<le> length (fst y)))
         \<and> (distinct neighbors \<longrightarrow> new = map fst (take 10 (sort_key sort_rank scored)))"
    using set_top sorted stable cut dist by blast
  show ?thesis
    by (intro exI [of _ new] conjI run new(2) len props sc sc_def
        words [THEN conjunct1] words [THEN conjunct2, THEN conjunct1]
        words [THEN conjunct2, THEN conjunct2, THEN conjunct1]
        words [THEN conjunct2, THEN conjunct2, THEN conjunct2, THEN conjunct1]
        words [THEN conjunct2, THEN conjunct2, THEN conjunct2, THEN conjunct2, THEN conjunct1]
        words [THEN conjunct2, THEN conjunct2, THEN conjunct2, THEN conjunct2, THEN conjunct2]
        rest [THEN conjunct1] rest [THEN conjunct2, THEN conjunct1]
        rest [THEN conjunct2, THEN conjunct2, THEN conjunct1]
        rest [THEN conjunct2, THEN conjunct2, THEN conjunct2, THEN conjunct1]
        rest [THEN conjunct2, THEN conjunct2, THEN conjunct2, THEN conjunct2])
qed


theorem process_node_enqueues_top_witness:
  "\<exists>new. process_node w_hub ''Red Star'' 6
            \<lparr>queue = [], visited = {''Hub''}, nodes_processed = 1\<rparr> ''Hub'' [''Hub'']
          = (None,
             \<lparr>queue = map (\<lambda>n. (n, [''Hub'', n])) new, visited = {''Hub''} \<union> set new,
              nodes_processed = 1\<rparr>,
             w_hub\<lparr>lookups := [''Hub'']\<rparr>)
        \<and> new = [''Star_Red'', ''RED'', ''B'', ''Aa'', ''Cc'', ''Dd'', ''Ee'', ''Ff'', ''Gg'',
                  ''Hh'']
        \<and> length hub_links = 13
        \<and> title_words ''Star_Red'' = {''red'', ''star''}
        \<and> title_words ''RED'' = {''red''}
        \<and> split ''Star_Red'' = [''Star_Red'']
        \<and> split ''One two'' = [''One'', ''two'']
        \<and> score (title_words ''Red Star'') ''Star_Red'' = 3
        \<and> score (title_words ''Red Star'') ''RED'' = 2
        \<and> score (title_words ''Red Star'') ''v_w_x_y_z'' = 1
        \<and> score (title_words ''Red Star'') ''One two three four five'' = 0"
proof -
  let ?st = "\<lparr>queue = [], visited = {''Hub''}, nodes_processed = 1\<rparr>"
  have d: "int (length [''Hub'']) < 6" by simp
  have s: "score_neighbors (w_hub\<lparr>lookups := [''Hub'']\<rparr>) ''Red Star'' [''Hub''] (visited ?st) []
             hub_links = (None, hub_scored, w_hub\<lparr>lookups := [''Hub'']\<rparr>)"
    using hub_score_neighbors by simp
  have dist: "distinct hub_links"
    by (simp add: hub_links_def)
  note inst = process_node_enqueues_top [OF d hub_lookup s]
  from inst show ?thesis
  proof (elim exE conjE)
    fix new
    assume run: "process_node w_hub ''Red Star'' 6 ?st ''Hub'' [''Hub'']
       = (None,
          ?st\<lparr>queue := queue ?st @ map (\<lambda>n. (n, [''Hub''] @ [n])) new,
               visited := visited ?st \<union> set new\<rparr>,
          w_hub\<lparr>lookups := [''Hub'']\<rparr>)"
    and new': "distinct hub_links \<longrightarrow> new = map fst (take 10 (sort_key sort_rank hub_scored))"
    and sep: "\<forall>a c b. isspace c \<or> c = CHR ''_''
                \<longrightarrow> title_words (a @ c # b) = title_words a \<union> title_words b"
    and word: "\<forall>u. u \<noteq> [] \<and> (\<forall>c \<in> set u. \<not> isspace c \<and> c \<noteq> CHR ''_'')
                \<longrightarrow> title_words u = {lower u}"
    and ssep: "\<forall>a c b. isspace c \<longrightarrow> split (a @ c # b) = split a @ split b"
    and sword: "\<forall>u. u \<noteq> [] \<and> (\<forall>c \<in> set u. \<not> isspace c) \<longrightarrow> split u = [u]"
    from new' dist have new: "new = map fst (take 10 (sort_key sort_rank hub_scored))"
      by simp
    have l1: "lower ''Star'' = ''star''" and l2: "lower ''Red'' = ''red''"
      and l3: "lower ''RED'' = ''red''"
      by code_simp+
    have sp: "\<not> isspace CHR ''S''" "\<not> isspace CHR ''t''" "\<not> isspace CHR ''a''"
      "\<not> isspace CHR ''r''" "\<not> isspace CHR ''R''" "\<not> isspace CHR ''e''"
      "\<not> isspace CHR ''d''" "\<not> isspace CHR ''E''" "\<not> isspace CHR ''D''"
      "\<not> isspace CHR ''_''" "\<not> isspace CHR ''O''" "\<not> isspace CHR ''n''"
      "\<not> isspace CHR ''w''" "\<not> isspace CHR ''o''" "isspace CHR '' ''"
      by code_simp+
    have "title_words (''Star'' @ CHR ''_'' # ''Red'')
            = title_words ''Star'' \<union> title_words ''Red''"
      using sep [rule_format, of "CHR ''_''" "''Star''" "''Red''"] by simp
    moreover have "title_words ''Star'' = {lower ''Star''}"
      using word [rule_format, of "''Star''"] sp by simp
    moreover have "title_words ''Red'' = {lower ''Red''}"
      using word [rule_format, of "''Red''"] sp by simp
    ultimately have t1: "title_words ''Star_Red'' = {''red'', ''star''}"
      by (simp add: l1 l2)
    have t2: "title_words ''RED'' = {''red''}"
      using word [rule_format, of "''RED''"] sp by (simp add: l3)
    have t3: "split ''Star_Red'' = [''Star_Red'']"
      using sword [rule_format, of "''Star_Red''"] sp by simp
    have "split (''One'' @ CHR '' '' # ''two'') = split ''One'' @ split ''two''"
      using ssep [rule_format, of "CHR '' ''" "''One''" "''two''"] sp by simp
    moreover have "split ''One'' = [''One'']"
      using sword [rule_format, of "''One''"] sp by simp
    moreover have "split ''two'' = [''two'']"
      using sword [rule_format, of "''two''"] sp by simp
    ultimately have t4: "split ''One two'' = [''One'', ''two'']"
      by simp
    have sc: "score (title_words ''Red Star'') ''Star_Red'' = 3"
      "score (title_words ''Red Star'') ''RED'' = 2"
      "score (title_words ''Red Star'') ''v_w_x_y_z'' = 1"
      "score (title_words ''Red Star'') ''One two three four five'' = 0"
      by code_simp+
    from run new t1 t2 t3 t4 sc show ?thesis
      by (intro exI [of _ new]) (simp add: hub_ranking hub_links_def)
  qed
qed

section \<open>Facts about the paths returned\<close>

lemma try_neighbors_Some:
  "try_neighbors w s e ns = (Some p, w')
     \<Longrightarrow> (\<exists>n. p = [s, n, e]) \<and> (\<exists>w0. verify_path_exists w0 p = (True, w'))"
proof (induction ns arbitrary: w)
  case Nil
  then show ?case by simp
next
  case (Cons n ns)
  obtain ok w1 where v: "verify_path_exists w [s, n, e] = (ok, w1)"
    by (cases "verify_path_exists w [s, n, e]")
  show ?case
  proof (cases ok)
    case True
    with Cons.prems v show ?thesis by auto
  next
    case False
    with Cons.prems v have "try_neighbors w1 s e ns = (Some p, w')" by simp
    then show ?thesis by (rule Cons.IH)
  qed
qed

lemma find_direct_connection_Some:
  assumes "find_direct_connection w s e = (Some p, w')"
  shows "p \<noteq> [] \<and> hd p = s \<and> last p = e \<and> length p \<le> 3"
proof -
  from assms have "p = [s] \<and> s = e \<or> p = [s, e] \<or> (\<exists>n. p = [s, n, e])"
    by (auto simp: find_direct_connection_def
        split: if_splits prod.splits sum.splits dest: try_neighbors_Some)
  then show ?thesis by auto
qed

lemma score_neighbors_Some:
  "score_neighbors w e path vis scored ns = (Some p, sc, w')
     \<Longrightarrow> p = path @ [e] \<and> (\<exists>w0. verify_path_exists w0 p = (True, w'))"
proof (induction ns arbitrary: w scored)
  case Nil
  then show ?case by simp
next
  case (Cons n ns)
  obtain ok w1 where v: "(if n = e then verify_path_exists w (path @ [n]) else (False, w)) = (ok, w1)"
    by (cases "if n = e then verify_path_exists w (path @ [n]) else (False, w)")
  show ?case
  proof (cases ok)
    case True
    with v have "n = e" and "verify_path_exists w (path @ [n]) = (True, w1)"
      by (auto split: if_splits)
    moreover from Cons.prems v True have "p = path @ [n]" and "w' = w1" by auto
    ultimately show ?thesis by auto
  next
    case False
    let ?scored = "if n \<notin> vis \<and> length n < 100
                   then scored @ [(n, score (title_words e) n)] else scored"
    from Cons.prems v False have "score_neighbors w1 e path vis ?scored ns = (Some p, sc, w')"
      by simp
    then show ?thesis by (rule Cons.IH)
  qed
qed

lemma process_node_paths_ok:
  assumes run: "process_node w e md st c path = (r, st', w')"
    and inv: "paths_ok s md st"
    and path: "path \<noteq> []" "hd path = s"
  shows "paths_ok s md st'
         \<and> (\<forall>p. r = Some p \<longrightarrow> p \<noteq> [] \<and> hd p = s \<and> last p = e \<and> int (length p) \<le> md)"
proof (cases "md \<le> int (length path)")
  case True
  with run inv show ?thesis by (simp add: process_node_def)
next
  case shallow: False
  obtain rl w1 where l: "get_page_links_with_cache w c = (rl, w1)"
    by (cases "get_page_links_with_cache w c")
  show ?thesis
  proof (cases rl)
    case (Inl err)
    with run shallow l inv show ?thesis by (simp add: process_node_def)
  next
    case (Inr neighbors)
    obtain r2 sc w2 where sn: "score_neighbors w1 e path (visited st) [] neighbors = (r2, sc, w2)"
      by (cases "score_neighbors w1 e path (visited st) [] neighbors")
    show ?thesis
    proof (cases r2)
      case None
      with run shallow l Inr sn have r: "r = None" and st': "st' = enqueue st path (top_neighbors sc)"
        by (simp_all add: process_node_def)
      from enqueue_result [of st path "top_neighbors sc"] obtain new where
        "enqueue st path (top_neighbors sc)
           = st\<lparr>queue := queue st @ map (\<lambda>n. (n, path @ [n])) new,
                visited := visited st \<union> set (top_neighbors sc)\<rparr>"
        by blast
      then have "queue st' = queue st @ map (\<lambda>n. (n, path @ [n])) new"
        unfolding st' by simp
      with inv path shallow have "paths_ok s md st'"
        unfolding paths_ok_def by auto
      with r show ?thesis by simp
    next
      case (Some fp)
      with run shallow l Inr sn have r: "r = Some fp" and st': "st' = st"
        by (simp_all add: process_node_def)
      from sn Some have "fp = path @ [e]"
        using score_neighbors_Some by blast
      with r st' inv path shallow show ?thesis by simp
    qed
  qed
qed

lemma bfs_loop_paths:
  assumes run: "bfs_loop w e md t s0 st = (Some p, st', w')"
    and inv: "paths_ok s md st"
  shows "p \<noteq> [] \<and> hd p = s \<and> last p = e \<and> int (length p) \<le> md"
proof -
  have "paths_ok s md st' \<and> (\<forall>q. Some p = Some q \<longrightarrow> q \<noteq> [] \<and> hd q = s \<and> last q = e \<and> int (length q) \<le> md)"
  proof (rule bfs_loop_invariant [OF run, where I = "paths_ok s md"])
    show "paths_ok s md st" by (rule inv)
  next
    fix st w c path rest r2 st2 w2
    assume i: "paths_ok s md st" and q: "queue st = (c, path) # rest"
      and p: "process_node w e md (st\<lparr>queue := rest, nodes_processed := nodes_processed st + 1\<rparr>)
                c path = (r2, st2, w2)"
    from i q have i1: "paths_ok s md (st\<lparr>queue := rest, nodes_processed := nodes_processed st + 1\<rparr>)"
      and ne: "path \<noteq> []" and hd: "hd path = s"
      by (auto simp: paths_ok_def)
    show "paths_ok s md st2 \<and> (\<forall>p. r2 = Some p \<longrightarrow> p \<noteq> [] \<and> hd p = s \<and> last p = e \<and> int (length p) \<le> md)"
      by (rule process_node_paths_ok [OF p i1 ne hd])
  qed
  then show ?thesis by simp
qed

lemma find_path_bfs_Some:
  assumes "find_path_bfs w s e md t = (Some p, w')" and "3 \<le> md"
  shows "p \<noteq> [] \<and> hd p = s \<and> last p = e \<and> int (length p) \<le> md"
proof -
  obtain s0 w1 where tm: "time_time w = (s0, w1)"
    by (cases "time_time w")
  obtain d w2 where dc: "find_direct_connection w1 s e = (d, w2)"
    by (cases "find_direct_connection w1 s e")
  let ?init = "\<lparr>queue = [(s, [s])], visited = {s}, nodes_processed = 0\<rparr>"
  show ?thesis
  proof (cases "d \<noteq> None \<and> d \<noteq> Some []")
    case True
    with assms tm dc have "d = Some p"
      by (simp add: find_path_bfs_def)
    with dc find_direct_connection_Some [of w1 s e p w2] assms(2) show ?thesis
      by auto
  next
    case False
    obtain r st3 w3 where l: "bfs_loop w2 e md t s0 ?init = (r, st3, w3)"
      by (cases "bfs_loop w2 e md t s0 ?init")
    with assms tm dc False have "r = Some p"
      by (auto simp: find_path_bfs_def)
    with l have run: "bfs_loop w2 e md t s0 ?init = (Some p, st3, w3)" by simp
    have "paths_ok s md ?init"
      using assms(2) by (simp add: paths_ok_def)
    from bfs_loop_paths [OF run this] show ?thesis .
  qed
qed


lemma try_categories_nonempty:
  "try_categories w s e cats = (p, w') \<Longrightarrow> p \<noteq> []
     \<Longrightarrow> (\<exists>cat. p = [s, cat, e]) \<and> (\<exists>w0. verify_path_exists w0 p = (True, w'))"
proof (induction cats arbitrary: w)
  case Nil
  then show ?case by simp
next
  case (Cons cat cats)
  obtain ok w1 where v: "verify_path_exists w [s, cat, e] = (ok, w1)"
    by (cases "verify_path_exists w [s, cat, e]")
  show ?case
  proof (cases ok)
    case True
    with Cons.prems v show ?thesis by auto
  next
    case False
    with Cons.prems v have "try_categories w1 s e cats = (p, w')" by simp
    from Cons.IH [OF this Cons.prems(2)] show ?thesis .
  qed
qed

lemma category_fallback_nonempty:
  assumes "category_fallback w s e = (p, w')" and "p \<noteq> []"
  shows "(\<exists>cat. p = [s, cat, e]) \<and> (\<exists>w0. verify_path_exists w0 p = (True, w'))"
proof -
  from assms obtain w2 cats where "try_categories w2 s e cats = (p, w')"
    by (auto simp: category_fallback_def Let_def split: prod.splits option.splits)
  from try_categories_nonempty [OF this assms(2)] show ?thesis .
qed

text \<open>The two ways in which \<open>find_short_path\<close> returns a non-empty path.\<close>

lemma find_short_path_cases:
  assumes run: "find_short_path w start_page end_page timeout = (p, w')" and ne: "p \<noteq> []"
  obtains
    (search) sp ep w1 where "start_page = Some sp" "end_page = Some ep"
      "find_path_bfs w (title sp) (title ep) 6 timeout = (Some p, w1)"
      "verify_path_exists w1 p = (True, w')"
  | (fallback) sp ep w1 where "start_page = Some sp" "end_page = Some ep"
      "category_fallback w1 (title sp) (title ep) = (p, w')"
proof -
  from run ne obtain sp ep where pages: "start_page = Some sp" "end_page = Some ep"
    by (cases start_page; cases end_page) (auto simp: find_short_path_def)
  from run ne pages have named: "title sp \<noteq> []" "title ep \<noteq> []"
    by (auto simp: find_short_path_def split: if_splits)
  obtain r w1 where b: "find_path_bfs w (title sp) (title ep) 6 timeout = (r, w1)"
    by (cases "find_path_bfs w (title sp) (title ep) 6 timeout")
  show thesis
  proof (cases "r = None \<or> r = Some []")
    case True
    with run pages named b have "category_fallback w1 (title sp) (title ep) = (p, w')"
      by (auto simp: find_short_path_def)
    with pages show thesis by (rule fallback)
  next
    case False
    then obtain path where r: "r = Some path" and path: "path \<noteq> []" by auto
    obtain ok w2 where v: "verify_path_exists w1 path = (ok, w2)"
      by (cases "verify_path_exists w1 path")
    show thesis
    proof (cases ok)
      case True
      with run pages named b r path v have "p = path" and "w' = w2"
        by (simp_all add: find_short_path_def)
      with pages b r v True show thesis by (intro search) simp_all
    next
      case False
      with run pages named b r path v
      have "category_fallback w2 (title sp) (title ep) = (p, w')"
        by (simp add: find_short_path_def)
      with pages show thesis by (rule fallback)
    qed
  qed
qed

lemma find_path_bfs_cached:
  assumes "0 \<le> t"
  shows "find_path_bfs w_cached ''A'' ''C'' 6 t
           = (Some [''A'', ''B'', ''C''],
              w_cached\<lparr>lookups := [''A'', ''C'', ''A'', ''B'', ''A'', ''B''], tick := 3\<rparr>)"
proof -
  have "time_time w_cached = (0, advance w_cached)"
    by (simp add: time_time_def w_cached_def)
  with direct_cached bfs_loop_cached [OF assms] show ?thesis
    by (simp add: find_path_bfs_def)
qed

lemma find_short_path_cached:
  assumes "0 \<le> t"
  shows "find_short_path w_cached (Some (page_titled ''A'')) (Some (page_titled ''C'')) t
           = ([''A'', ''B'', ''C''],
              w_cached\<lparr>lookups := [''A'', ''C'', ''A'', ''B'', ''A'', ''B'', ''A'', ''B''],
                       tick := 3\<rparr>)"
proof -
  have "verify_path_exists
          (w_cached\<lparr>lookups := [''A'', ''C'', ''A'', ''B'', ''A'', ''B''], tick := 3\<rparr>)
          [''A'', ''B'', ''C'']
        = (True, w_cached\<lparr>lookups := [''A'', ''C'', ''A'', ''B'', ''A'', ''B'', ''A'', ''B''],
                          tick := 3\<rparr>)"
    by (simp add: verify_path_exists_def get_page_links_with_cache_def w_cached_def)
  with find_path_bfs_cached [OF assms] show ?thesis
    by (simp add: find_short_path_def page_titled_def)
qed

lemma direct_ticking:
  "find_direct_connection (advance w_ticking) ''A'' ''C''
     = (None, (advance w_ticking)\<lparr>lookups := [''A'', ''C'']\<rparr>)"
  by (simp add: get_page_links_with_cache_def find_direct_connection_def advance_def
      w_ticking_def)

lemma category_fallback_ticking:
  "category_fallback (advance ((advance w_ticking)\<lparr>lookups := [''A'', ''C'']\<rparr>)) ''A'' ''C''
     = ([''A'', ''Physics'', ''C''],
        w_ticking\<lparr>lookups := [''A'', ''C'', ''A'', ''Physics''], tick := 4\<rparr>)"
  by (simp add: category_fallback_def get_page_def wikipedia_page_call_def advance_def
      w_ticking_def regular_Physics verify_path_exists_def get_page_links_with_cache_def
      Let_def)

section \<open>Claims about the orchestrator\<close>

text \<open>
  Claim C1. Every non-empty path that \<open>find_short_path\<close> returns has been confirmed by
  \<open>verify_path_exists\<close>: the state in which it is returned is the state that a call of
  \<open>verify_path_exists\<close> on this very path left when it answered True, so that in
  that call the lookup of every topic of the path but the last returned a list that holds
  the next topic. The path is either the result of \<open>find_path_bfs\<close> (the search or the
  direct-connection shortcut), confirmed in the state that \<open>find_path_bfs\<close> left, or a
  path through a common category.
\<close>

theorem find_short_path_validated:
  assumes "find_short_path w start_page end_page timeout = (p, w')" and "p \<noteq> []"
  shows "\<exists>w0 sp ep.
           verify_path_exists w0 p = (True, w')
         \<and> (\<forall>i. Suc i < length p \<longrightarrow>
                (\<exists>ls. lookup_all w0 (butlast p) ! i = Inr ls \<and> p ! Suc i \<in> set ls))
         \<and> start_page = Some sp \<and> end_page = Some ep
         \<and> (find_path_bfs w (title sp) (title ep) 6 timeout = (Some p, w0)
              \<or> (\<exists>cat. p = [title sp, cat, title ep]))"
proof -
  have edges: "\<forall>i. Suc i < length p \<longrightarrow>
                 (\<exists>ls. lookup_all w0 (butlast p) ! i = Inr ls \<and> p ! Suc i \<in> set ls)"
    if "verify_path_exists w0 p = (True, w')" for w0
    using that verify_path_exists_edges [of w0 p] by simp
  from assms show ?thesis
  proof (cases rule: find_short_path_cases)
    case (search sp ep w1)
    with edges [of w1] show ?thesis by blast
  next
    case (fallback sp ep w1)
    from category_fallback_nonempty [OF fallback(3) assms(2)] obtain cat w0 where
      "p = [title sp, cat, title ep]" and v: "verify_path_exists w0 p = (True, w')"
      by blast
    with edges [OF v] fallback(1,2) show ?thesis by blast
  qed
qed

theorem find_short_path_validated_witness:
  "find_short_path w_cached (Some (page_titled ''A'')) (Some (page_titled ''C'')) 15
     = ([''A'', ''B'', ''C''],
        w_cached\<lparr>lookups := [''A'', ''C'', ''A'', ''B'', ''A'', ''B'', ''A'', ''B''], tick := 3\<rparr>)
   \<and> (\<exists>w0. verify_path_exists w0 [''A'', ''B'', ''C'']
              = (True, w_cached\<lparr>lookups := [''A'', ''C'', ''A'', ''B'', ''A'', ''B'', ''A'', ''B''],
                                tick := 3\<rparr>))"
proof -
  have run: "find_short_path w_cached (Some (page_titled ''A'')) (Some (page_titled ''C'')) 15
     = ([''A'', ''B'', ''C''],
        w_cached\<lparr>lookups := [''A'', ''C'', ''A'', ''B'', ''A'', ''B'', ''A'', ''B''], tick := 3\<rparr>)"
    by (rule find_short_path_cached) simp
  have ne: "[''A'', ''B'', ''C''] \<noteq> []" by simp
  from find_short_path_validated [OF run ne] run show ?thesis by blast
qed

text \<open>
  Claim C8. For two endpoints with the same non-empty title \<open>x\<close>, \<open>find_short_path\<close>
  returns \<open>[x]\<close> for every time budget, from the first test of
  \<open>find_direct_connection\<close>; only the clock has been read.
\<close>

theorem find_short_path_same_topic:
  assumes "title sp = x" and "title ep = x" and "x \<noteq> []"
  shows "find_direct_connection (advance w) x x = (Some [x], advance w)
         \<and> find_short_path w (Some sp) (Some ep) timeout = ([x], advance w)"
proof -
  have d: "find_direct_connection (advance w) x x = (Some [x], advance w)"
    by (simp add: find_direct_connection_def)
  then have "find_path_bfs w x x 6 timeout = (Some [x], advance w)"
    by (simp add: find_path_bfs_def time_time_def)
  with assms d show ?thesis
    by (simp add: find_short_path_def verify_path_exists_def)
qed

theorem find_short_path_same_topic_witness:
  "title (page_titled ''A'') = ''A'' \<and> ''A'' \<noteq> []
   \<and> find_short_path w_offline (Some (page_titled ''A'')) (Some (page_titled ''A'')) 0
       = ([''A''], advance w_offline)"
proof -
  have t: "title (page_titled ''A'') = ''A''" by (simp add: page_titled_def)
  have n: "''A'' \<noteq> []" by simp
  from find_short_path_same_topic [OF t t n, of w_offline 0] t n show ?thesis by simp
qed


text \<open>
  Claim C9, as stated: with a time budget of 0 the search loop stops at its first test of
  the clock, before any node is expanded. This fails when the clock shows the same time
  at that test as at the start of the search, since the loop stops only when the time
  elapsed is greater than the budget: no direct connection leads from ``A'' to ``C'', the
  loop dequeues and expands two nodes and \<open>find_short_path\<close> returns the path found by
  the search.
\<close>

theorem zero_budget_still_searches_counterexample:
  "find_direct_connection (advance w_cached) ''A'' ''C''
     = (None, (advance w_cached)\<lparr>lookups := [''A'', ''C'']\<rparr>)
   \<and> bfs_loop ((advance w_cached)\<lparr>lookups := [''A'', ''C'']\<rparr>) ''C'' 6 0 0
         \<lparr>queue = [(''A'', [''A''])], visited = {''A''}, nodes_processed = 0\<rparr>
       = (Some [''A'', ''B'', ''C''],
          \<lparr>queue = [], visited = {''B'', ''A''}, nodes_processed = 2\<rparr>,
          w_cached\<lparr>lookups := [''A'', ''C'', ''A'', ''B'', ''A'', ''B''], tick := 3\<rparr>)
   \<and> fst (find_short_path w_cached (Some (page_titled ''A'')) (Some (page_titled ''C'')) 0)
       = [''A'', ''B'', ''C'']"
  using direct_cached bfs_loop_cached [of 0] find_short_path_cached [of 0] by simp

text \<open>
  Claim C9, amended. When no direct connection is found and the clock, at the first test
  of the loop, shows a time later than at the start of the search, then with a time budget
  of 0 the loop stops at that test: no node is dequeued, no lookup is made, and
  \<open>find_path_bfs\<close> returns no path. \<open>find_short_path\<close> then returns what the category
  fallback returns.
\<close>

theorem zero_budget_aborts:
  assumes "title sp \<noteq> []" and "title ep \<noteq> []"
    and "find_direct_connection (advance w) (title sp) (title ep) = (None, w2)"
    and "clock w (tick w) < clock w2 (tick w2)"
  shows "bfs_loop w2 (title ep) max_depth 0 (clock w (tick w))
           \<lparr>queue = [(title sp, [title sp])], visited = {title sp}, nodes_processed = 0\<rparr>
         = (None,
            \<lparr>queue = [(title sp, [title sp])], visited = {title sp}, nodes_processed = 0\<rparr>,
            advance w2)
       \<and> find_path_bfs w (title sp) (title ep) max_depth 0 = (None, advance w2)
       \<and> lookups (advance w2) = lookups w2
       \<and> find_short_path w (Some sp) (Some ep) 0
           = category_fallback (advance w2) (title sp) (title ep)"
proof -
  let ?init = "\<lparr>queue = [(title sp, [title sp])], visited = {title sp}, nodes_processed = 0\<rparr>"
  have tm: "time_time w2 = (clock w2 (tick w2), advance w2)"
    by (simp add: time_time_def)
  have late: "0 < clock w2 (tick w2) - clock w (tick w)"
    using assms(4) by simp
  have loop: "bfs_loop w2 (title ep) max_depth 0 (clock w (tick w)) ?init
                = (None, ?init, advance w2)"
    by (rule bfs_loop_timeout [OF _ _ tm late]) (simp_all add: max_nodes_def)
  have bfs: "find_path_bfs w (title sp) (title ep) max_depth 0 = (None, advance w2)"
    using assms(3) loop by (simp add: find_path_bfs_def time_time_def)
  have "find_path_bfs w (title sp) (title ep) 6 0 = (None, advance w2)"
    using assms(3) bfs_loop_timeout [OF _ _ tm late, of ?init "title sp" "[title sp]" "[]" "title ep" 6]
    by (simp add: find_path_bfs_def time_time_def max_nodes_def)
  then have short: "find_short_path w (Some sp) (Some ep) 0
           = category_fallback (advance w2) (title sp) (title ep)"
    using assms(1,2) by (simp add: find_short_path_def)
  from loop bfs short show ?thesis
    by (simp add: advance_def)
qed

theorem zero_budget_aborts_witness:
  "find_direct_connection (advance w_ticking) ''A'' ''C''
     = (None, (advance w_ticking)\<lparr>lookups := [''A'', ''C'']\<rparr>)
   \<and> clock w_ticking (tick w_ticking) < clock w_ticking (Suc (tick w_ticking))
   \<and> find_path_bfs w_ticking ''A'' ''C'' 6 0
       = (None, advance ((advance w_ticking)\<lparr>lookups := [''A'', ''C'']\<rparr>))
   \<and> find_short_path w_ticking (Some (page_titled ''A'')) (Some (page_titled ''C'')) 0
       = ([''A'', ''Physics'', ''C''],
          w_ticking\<lparr>lookups := [''A'', ''C'', ''A'', ''Physics''], tick := 4\<rparr>)"
proof -
  let ?w2 = "(advance w_ticking)\<lparr>lookups := [''A'', ''C'']\<rparr>"
  have a: "title (page_titled ''A'') \<noteq> []" and c: "title (page_titled ''C'') \<noteq> []"
    by (simp_all add: page_titled_def)
  have d: "find_direct_connection (advance w_ticking) (title (page_titled ''A''))
             (title (page_titled ''C'')) = (None, ?w2)"
    using direct_ticking by (simp add: page_titled_def)
  have k: "clock w_ticking (tick w_ticking) < clock ?w2 (tick ?w2)"
    by (simp add: w_ticking_def advance_def)
  have k': "clock w_ticking (tick w_ticking) < clock w_ticking (Suc (tick w_ticking))"
    by (simp add: w_ticking_def)
  from zero_budget_aborts [OF a c d k, of 6] direct_ticking category_fallback_ticking k'
  show ?thesis
    by (simp add: page_titled_def)
qed


text \<open>
  Claim C10. Every non-empty path that \<open>find_short_path\<close> returns begins with the title
  of the start page, ends with the title of the end page and has at most 6 topics. A path
  returned by the search loop with depth bound 6 has at most 6 topics, a direct connection
  has at most 3, and so has a path of the category fallback.
\<close>

theorem find_short_path_shape:
  "(find_short_path w start_page end_page timeout = (p, w') \<and> p \<noteq> []
      \<longrightarrow> (\<exists>sp ep. start_page = Some sp \<and> end_page = Some ep
                   \<and> hd p = title sp \<and> last p = title ep \<and> length p \<le> 6))
   \<and> (bfs_loop w2 end_title 6 t s0
          \<lparr>queue = [(start_title, [start_title])], visited = {start_title}, nodes_processed = 0\<rparr>
        = (Some q, st3, w3)
        \<longrightarrow> hd q = start_title \<and> last q = end_title \<and> length q \<le> 6)
   \<and> (find_direct_connection w4 start_title end_title = (Some d, w5) \<longrightarrow> length d \<le> 3)
   \<and> (category_fallback w6 start_title end_title = (c, w7) \<longrightarrow> length c \<le> 3)"
proof -
  have main: "\<exists>sp ep. start_page = Some sp \<and> end_page = Some ep
                   \<and> hd p = title sp \<and> last p = title ep \<and> length p \<le> 6"
    if a: "find_short_path w start_page end_page timeout = (p, w') \<and> p \<noteq> []"
  proof -
    from a have run: "find_short_path w start_page end_page timeout = (p, w')" and ne: "p \<noteq> []"
      by simp_all
    from run ne show ?thesis
    proof (cases rule: find_short_path_cases)
      case (search sp ep w1)
      from find_path_bfs_Some [OF search(3)] search(1,2) show ?thesis by simp
    next
      case (fallback sp ep w1)
      from category_fallback_nonempty [OF fallback(3) ne] fallback(1,2) show ?thesis by auto
    qed
  qed
  have loop: "hd q = start_title \<and> last q = end_title \<and> length q \<le> 6"
    if run: "bfs_loop w2 end_title 6 t s0
            \<lparr>queue = [(start_title, [start_title])], visited = {start_title}, nodes_processed = 0\<rparr>
          = (Some q, st3, w3)"
  proof -
    have "paths_ok start_title 6
            \<lparr>queue = [(start_title, [start_title])], visited = {start_title}, nodes_processed = 0\<rparr>"
      by (simp add: paths_ok_def)
    from bfs_loop_paths [OF run this] show ?thesis by simp
  qed
  have direct: "length d \<le> 3"
    if "find_direct_connection w4 start_title end_title = (Some d, w5)"
    using find_direct_connection_Some [OF that] by simp
  have cats: "length c \<le> 3" if c: "category_fallback w6 start_title end_title = (c, w7)"
  proof (cases "c = []")
    case True
    then show ?thesis by simp
  next
    case False
    from category_fallback_nonempty [OF c False] show ?thesis by auto
  qed
  from main loop direct cats show ?thesis by blast
qed

lemma find_short_path_direct_cached:
  "find_short_path w_cached (Some (page_titled ''A'')) (Some (page_titled ''B'')) 15
     = ([''A'', ''B''], w_cached\<lparr>lookups := [''A'', ''A''], tick := 1\<rparr>)"
  by (simp add: find_short_path_def find_path_bfs_def cached_eval page_titled_def)

lemma category_fallback_offline:
  "category_fallback w_offline ''A'' ''C'' = ([], w_offline\<lparr>tick := 6\<rparr>)"
  by (simp add: category_fallback_def get_page_def wikipedia_page_call_def
      wikipedia_search_call_def python_fallback_def advance_def w_offline_def)

theorem find_short_path_shape_witness:
  "find_short_path w_cached (Some (page_titled ''A'')) (Some (page_titled ''B'')) 15
     = ([''A'', ''B''], w_cached\<lparr>lookups := [''A'', ''A''], tick := 1\<rparr>)
   \<and> hd [''A'', ''B''] = title (page_titled ''A'')
   \<and> last [''A'', ''B''] = title (page_titled ''B'')
   \<and> length [''A'', ''B''] \<le> 6
   \<and> find_direct_connection (advance w_cached) ''A'' ''B''
       = (Some [''A'', ''B''], (advance w_cached)\<lparr>lookups := [''A'']\<rparr>)
   \<and> category_fallback w_offline ''A'' ''C'' = ([], w_offline\<lparr>tick := 6\<rparr>)"
proof -
  have run: "bfs_loop ((advance w_cached)\<lparr>lookups := [''A'', ''C'']\<rparr>) ''C'' 6 15 0
               \<lparr>queue = [(''A'', [''A''])], visited = {''A''}, nodes_processed = 0\<rparr>
             = (Some [''A'', ''B'', ''C''],
                \<lparr>queue = [], visited = {''B'', ''A''}, nodes_processed = 2\<rparr>,
                w_cached\<lparr>lookups := [''A'', ''C'', ''A'', ''B'', ''A'', ''B''], tick := 3\<rparr>)"
    by (rule bfs_loop_cached) simp
  have direct: "find_direct_connection (advance w_cached) ''A'' ''B''
       = (Some [''A'', ''B''], (advance w_cached)\<lparr>lookups := [''A'']\<rparr>)"
    by (simp add: cached_eval)
  note inst = find_short_path_shape [where w = w_cached
      and start_page = "Some (page_titled ''A'')" and end_page = "Some (page_titled ''B'')"
      and timeout = 15 and p = "[''A'', ''B'']"
      and w' = "w_cached\<lparr>lookups := [''A'', ''A''], tick := 1\<rparr>"
      and ?w2.0 = "(advance w_cached)\<lparr>lookups := [''A'', ''C'']\<rparr>"
      and end_title = "''C''" and t = 15 and ?s0.0 = 0 and start_title = "''A''"
      and q = "[''A'', ''B'', ''C'']"
      and ?st3.0 = "\<lparr>queue = [], visited = {''B'', ''A''}, nodes_processed = 2\<rparr>"
      and ?w3.0 = "w_cached\<lparr>lookups := [''A'', ''C'', ''A'', ''B'', ''A'', ''B''], tick := 3\<rparr>"
      and ?w4.0 = "advance w_cached" and d = "[''A'', ''B'']"
      and ?w5.0 = "(advance w_cached)\<lparr>lookups := [''A'']\<rparr>"
      and ?w6.0 = w_offline and c = "[]" and ?w7.0 = "w_offline\<lparr>tick := 6\<rparr>"]
  have "hd [''A'', ''B''] = title (page_titled ''A'')
        \<and> last [''A'', ''B''] = title (page_titled ''B'') \<and> length [''A'', ''B''] \<le> 6"
    using inst find_short_path_direct_cached by auto
  with find_short_path_direct_cached direct category_fallback_offline show ?thesis
    by simp
qed

end
